theory Spec2Isabelle
  imports Main "HOL-Library.AList"
begin

section \<open>Data model (types/index.ts, store/gameStore.ts)\<close>

text \<open>
  The store of \<^verbatim>\<open>store/gameStore.ts\<close> is embedded with explicit state passing: every
  action takes the store and returns the store that \<^verbatim>\<open>set\<close> leaves behind. The
  persistence middleware only serialises the committed state and is not modelled.

  Scores, honba and the bet pool are JavaScript numbers that only ever hold integers;
  they are \<^typ>\<open>int\<close> here. The dealer index and the round number come out of a
  remainder by the player count, which is \<^verbatim>\<open>NaN\<close> when no player is seated, so they
  keep that value. A seat wind is read from the four-element table \<^verbatim>\<open>WINDS\<close>, which
  yields \<^verbatim>\<open>undefined\<close> beyond index 3; \<open>None\<close> stands for it.

  Field names are the source's, except where two interfaces share a name or the name is
  taken in HOL: \<^verbatim>\<open>Player.id\<close> is \<open>player_id\<close>, \<^verbatim>\<open>YakuItem.han\<close> is \<open>yaku_han\<close>, the
  \<^verbatim>\<open>honba\<close> and \<^verbatim>\<open>riichiBets\<close> of a round record are \<open>round_honba\<close> and
  \<open>round_riichiBets\<close>, and the \<^verbatim>\<open>han\<close>, \<^verbatim>\<open>fu\<close>, \<^verbatim>\<open>is_yakuman\<close> and \<^verbatim>\<open>error\<close> of a score
  response are \<open>resp_han\<close>, \<open>resp_fu\<close>, \<open>resp_is_yakuman\<close> and \<open>error_msg\<close>.
\<close>

datatype wind = East | South | West | North

datatype phase = Setup | Playing | Finished

datatype jsnum = Fin int | NaN

datatype error = TypeError

record Player =
  player_id :: string
  name :: string
  iconId :: string
  seatWind :: "wind option"
  score :: int
  isDealer :: bool

record YakuItem =
  code :: string
  name_zh :: string
  name_en :: string
  yaku_han :: int
  is_yakuman :: bool

text \<open>
  A payment mapping is a JavaScript object keyed by player id. String keys that are not
  array indices (the ids are \<^verbatim>\<open>player-0\<close>, \<^verbatim>\<open>player-1\<close>, ...) are kept in insertion
  order and an assignment to an existing key overwrites in place, which is what
  \<^const>\<open>AList.update\<close> does on an association list.
\<close>

type_synonym payment_map = "(string \<times> int) list"

text \<open>The argument of \<^verbatim>\<open>recordWin\<close>: a round without the four fields the store fills in.\<close>

record RoundFacts =
  winnerId :: "string option"
  loserId :: "string option"
  isTsumo :: bool
  isDraw :: bool
  tenpaiPlayerIds :: "string list"
  yakuList :: "YakuItem list"
  han :: int
  fu :: int
  payments :: payment_map

record Round = RoundFacts +
  roundNumber :: jsnum
  roundWind :: wind
  round_honba :: int
  round_riichiBets :: int

record GameStore =
  phase :: phase
  players :: "Player list"
  startingScore :: int
  rounds :: "Round list"
  currentRoundNumber :: jsnum
  currentRoundWind :: wind
  honba :: int
  riichiBets :: int
  playerRiichi :: "bool list"
  dealerIndex :: jsnum

section \<open>JavaScript primitives used by the store\<close>

text \<open>\<^verbatim>\<open>a % n\<close> on integers: the sign follows the dividend, and a zero divisor gives NaN.\<close>

definition js_rem :: "int \<Rightarrow> nat \<Rightarrow> jsnum" where
  "js_rem a n =
     (if n = 0 then NaN
      else Fin (if a < 0 then - ((- a) mod int n) else a mod int n))"

fun num_add :: "jsnum \<Rightarrow> int \<Rightarrow> jsnum" where
  "num_add (Fin a) b = Fin (a + b)"
| "num_add NaN b = NaN"

fun num_rem :: "jsnum \<Rightarrow> nat \<Rightarrow> jsnum" where
  "num_rem (Fin a) n = js_rem a n"
| "num_rem NaN n = NaN"

text \<open>\<^verbatim>\<open>xs.map((x, i) => f(i, x))\<close>\<close>

definition map_index :: "(nat \<Rightarrow> 'a \<Rightarrow> 'b) \<Rightarrow> 'a list \<Rightarrow> 'b list" where
  "map_index f xs = map (\<lambda>(i, x). f i x) (enumerate 0 xs)"

text \<open>\<^verbatim>\<open>payments[id] ?? 0\<close>\<close>

definition lookup0 :: "payment_map \<Rightarrow> string \<Rightarrow> int" where
  "lookup0 pm k = (case map_of pm k of None \<Rightarrow> 0 | Some v \<Rightarrow> v)"

text \<open>
  The bet-declared flags are an array of booleans indexed by seat. Reading past the end
  gives \<^verbatim>\<open>undefined\<close>, which the store only ever tests for truthiness, so the read is
  \<open>False\<close> there. Writing past the end extends the array; the holes in between read as
  \<^verbatim>\<open>undefined\<close> too and are filled with \<open>False\<close>. Indices are the non-negative
  integers a seat position can be.
\<close>

definition flag_at :: "bool list \<Rightarrow> nat \<Rightarrow> bool" where
  "flag_at xs i = (i < length xs \<and> xs ! i)"

definition set_flag :: "bool list \<Rightarrow> nat \<Rightarrow> bool \<Rightarrow> bool list" where
  "set_flag xs i v =
     (if i < length xs then xs[i := v]
      else xs @ replicate (i - length xs) False @ [v])"

section \<open>Seat winds\<close>

definition WINDS :: "wind list" where
  "WINDS = [East, South, West, North]"

definition WINDS_at :: "int \<Rightarrow> wind option" where
  "WINDS_at k = (if 0 \<le> k \<and> k < 4 then Some (WINDS ! nat k) else None)"

definition seatWindOf :: "nat \<Rightarrow> jsnum \<Rightarrow> nat \<Rightarrow> wind option" where
  "seatWindOf playerIdx dealerIdx count =
     (case dealerIdx of
        NaN \<Rightarrow> None
      | Fin d \<Rightarrow>
          (case js_rem (int playerIdx - d + int count) count of
             NaN \<Rightarrow> None
           | Fin offset \<Rightarrow> WINDS_at offset))"

section \<open>Settlement calculators\<close>

text \<open>\<^verbatim>\<open>players.forEach(p => { payments[p.id] = 0; })\<close> on an empty object.\<close>

definition zero_payments :: "Player list \<Rightarrow> payment_map" where
  "zero_payments ps = fold (\<lambda>p. AList.update (player_id p) 0) ps []"

text \<open>
  \<^verbatim>\<open>computeDrawPayments\<close>. Both counts are lengths. \<^verbatim>\<open>Math.floor(3000 / n)\<close> is the
  integer quotient for a positive count; for \<open>notenCount = 0\<close> JavaScript computes
  \<^verbatim>\<open>Infinity\<close>, but then \<open>notenIds\<close> is empty and the amount is never stored.
\<close>

definition computeDrawPayments :: "Player list \<Rightarrow> string list \<Rightarrow> payment_map" where
  "computeDrawPayments ps tenpaiIds =
     (let payments0 = zero_payments ps;
          tenpaiCount = length tenpaiIds;
          playerCount = length ps;
          notenIds = filter (\<lambda>i. i \<notin> set tenpaiIds) (map player_id ps);
          notenCount = length notenIds
      in if tenpaiCount = 0 \<or> tenpaiCount = playerCount then payments0
         else
           let receivePerTenpai = 3000 div int tenpaiCount;
               payPerNoten = 3000 div int notenCount;
               payments1 = fold (\<lambda>i. AList.update i receivePerTenpai) tenpaiIds payments0
           in fold (\<lambda>i. AList.update i (- payPerNoten)) notenIds payments1)"

text \<open>
  \<^verbatim>\<open>computeTsumoPayments\<close>. The winner is looked up with \<^verbatim>\<open>find\<close>; reading
  \<^verbatim>\<open>isDealer\<close> of a winner that is not in the list throws. The loop carries the mapping
  and the amount collected so far. The last parameter is not used by the source either.
\<close>

definition tsumo_step :: "string \<Rightarrow> bool \<Rightarrow> int \<Rightarrow> int \<Rightarrow> Player \<Rightarrow> payment_map \<times> int \<Rightarrow> payment_map \<times> int" where
  "tsumo_step winner winnerIsDealer dealerPayment nonDealerPayment p acc =
     (case acc of (pm, collected) \<Rightarrow>
        if player_id p = winner then (pm, collected)
        else if winnerIsDealer
          then (AList.update (player_id p) (- dealerPayment) pm, collected + dealerPayment)
          else
            let pays = (if isDealer p then dealerPayment else nonDealerPayment)
            in (AList.update (player_id p) (- pays) pm, collected + pays))"

definition computeTsumoPayments ::
    "Player list \<Rightarrow> string \<Rightarrow> int \<Rightarrow> int \<Rightarrow> int \<Rightarrow> error + payment_map" where
  "computeTsumoPayments ps winner dealerPayment nonDealerPayment totalPoints =
     (case find (\<lambda>p. player_id p = winner) ps of
        None \<Rightarrow> Inl TypeError
      | Some w \<Rightarrow>
          (case fold (tsumo_step winner (isDealer w) dealerPayment nonDealerPayment) ps
                  (zero_payments ps, 0) of
             (pm, collected) \<Rightarrow> Inr (AList.update winner collected pm)))"

text \<open>
  The amount one non-winning player pays at a self-drawn win, as the loop body of
  \<^verbatim>\<open>computeTsumoPayments\<close> selects it.
\<close>

definition tsumo_pays :: "bool \<Rightarrow> int \<Rightarrow> int \<Rightarrow> Player \<Rightarrow> int" where
  "tsumo_pays wd dp ndp p = (if wd then dp else if isDealer p then dp else ndp)"

text \<open>
  The payment block of \<^verbatim>\<open>modals/ScoreModal.tsx\<close>, which computes the mapping that
  \<^verbatim>\<open>RoundModal\<close> hands to \<^verbatim>\<open>recordWin\<close>: the self-drawn case again, and the discard
  case, where the loser pays the total to the winner. \<^verbatim>\<open>winner.isDealer\<close> throws when
  the winner is not in the list; a \<^verbatim>\<open>null\<close> or empty loser id is falsy and leaves the
  mapping at zero. Every player's id is a key of the mapping before it is read back.
\<close>

record ScoreResponse =
  is_winning :: bool
  yaku :: "YakuItem list"
  resp_han :: int
  resp_fu :: int
  base_points :: int
  total_points :: int
  dealer_payment :: int
  non_dealer_payment :: int
  honba_bonus :: int
  riichi_sticks_bonus :: int
  resp_is_yakuman :: bool
  error_msg :: "string option"

definition scoreModalPayments ::
    "Player list \<Rightarrow> string \<Rightarrow> string option \<Rightarrow> bool \<Rightarrow> ScoreResponse \<Rightarrow> error + payment_map" where
  "scoreModalPayments ps winner loser tsumo response =
     (let payments0 = zero_payments ps
      in if is_winning response then
           if tsumo then
             (case find (\<lambda>p. player_id p = winner) ps of
                None \<Rightarrow> Inl TypeError
              | Some w \<Rightarrow>
                  let payments1 =
                        fold (\<lambda>p pm.
                                if player_id p = winner then pm
                                else
                                  let pays = (if isDealer w \<or> isDealer p
                                              then dealer_payment response
                                              else non_dealer_payment response)
                                  in AList.update (player_id p) (- pays) pm)
                          ps payments0;
                      totalIn =
                        fold (\<lambda>p sum. sum + \<bar>lookup0 payments1 (player_id p)\<bar>)
                          (filter (\<lambda>p. player_id p \<noteq> winner) ps) 0
                  in Inr (AList.update winner totalIn payments1))
           else
             (case loser of
                None \<Rightarrow> Inr payments0
              | Some l \<Rightarrow>
                  if l = [] then Inr payments0
                  else Inr (AList.update winner (total_points response)
                             (AList.update l (- total_points response) payments0)))
         else Inr payments0)"

section \<open>Store actions\<close>

text \<open>The state the store is created with.\<close>

definition initialStore :: GameStore where
  "initialStore =
     \<lparr>phase = Setup, players = [], startingScore = 25000, rounds = [],
      currentRoundNumber = Fin 1, currentRoundWind = East, honba = 0, riichiBets = 0,
      playerRiichi = [], dealerIndex = Fin 0\<rparr>"

definition initGame :: "Player list \<Rightarrow> int \<Rightarrow> GameStore \<Rightarrow> GameStore" where
  "initGame ps start s =
     (let count = length ps;
          initialised =
            map_index (\<lambda>i p. p\<lparr>score := start, isDealer := (i = 0), seatWind := WINDS_at (int i)\<rparr>) ps
      in s\<lparr>phase := Playing, players := initialised, startingScore := start, rounds := [],
            currentRoundNumber := Fin 1, currentRoundWind := East, honba := 0,
            riichiBets := 0, playerRiichi := replicate count False, dealerIndex := Fin 0\<rparr>)"

definition declareRiichi :: "nat \<Rightarrow> GameStore \<Rightarrow> GameStore" where
  "declareRiichi playerIndex s =
     (if flag_at (playerRiichi s) playerIndex then s
      else
        let updatedPlayers =
              map_index (\<lambda>i p. if i = playerIndex then p\<lparr>score := score p - 1000\<rparr> else p)
                (players s);
            updatedRiichi = set_flag (playerRiichi s) playerIndex True
        in s\<lparr>players := updatedPlayers, playerRiichi := updatedRiichi,
              riichiBets := riichiBets s + 1\<rparr>)"

definition undoRiichi :: "nat \<Rightarrow> GameStore \<Rightarrow> GameStore" where
  "undoRiichi playerIndex s =
     (if \<not> flag_at (playerRiichi s) playerIndex then s
      else
        let updatedPlayers =
              map_index (\<lambda>i p. if i = playerIndex then p\<lparr>score := score p + 1000\<rparr> else p)
                (players s);
            updatedRiichi = set_flag (playerRiichi s) playerIndex False
        in s\<lparr>players := updatedPlayers, playerRiichi := updatedRiichi,
              riichiBets := max 0 (riichiBets s - 1)\<rparr>)"

text \<open>
  The rotation both \<^verbatim>\<open>recordWin\<close> (non-dealer win) and \<^verbatim>\<open>recordDraw\<close> (dealer noten)
  spell out: the next dealer index, round number, round wind and phase.
\<close>

definition rotate_dealer :: "jsnum \<Rightarrow> jsnum \<Rightarrow> wind \<Rightarrow> nat \<Rightarrow> jsnum \<times> jsnum \<times> wind \<times> phase" where
  "rotate_dealer dealerIdx roundNo roundW count =
     (let newDealerIndex = num_rem (num_add dealerIdx 1) count
      in if newDealerIndex = Fin 0 then
           (if roundW = East then (newDealerIndex, Fin 1, South, Playing)
            else (newDealerIndex, roundNo, roundW, Finished))
         else (newDealerIndex, num_add newDealerIndex 1, roundW, Playing))"

definition reassign :: "jsnum \<Rightarrow> nat \<Rightarrow> Player list \<Rightarrow> Player list" where
  "reassign newDealerIndex count ps =
     map_index (\<lambda>i p. p\<lparr>isDealer := (Fin (int i) = newDealerIndex),
                         seatWind := seatWindOf i newDealerIndex count\<rparr>) ps"

definition apply_payments :: "payment_map \<Rightarrow> Player list \<Rightarrow> Player list" where
  "apply_payments pm ps = map (\<lambda>p. p\<lparr>score := score p + lookup0 pm (player_id p)\<rparr>) ps"

definition winnerIsDealer :: "Player list \<Rightarrow> string option \<Rightarrow> bool" where
  "winnerIsDealer ps wid =
     (case find (\<lambda>p. Some (player_id p) = wid) ps of None \<Rightarrow> False | Some w \<Rightarrow> isDealer w)"

definition recordWin :: "RoundFacts \<Rightarrow> GameStore \<Rightarrow> GameStore" where
  "recordWin round s =
     (let fullRound =
            \<lparr>winnerId = winnerId round, loserId = loserId round, isTsumo = isTsumo round,
             isDraw = isDraw round, tenpaiPlayerIds = tenpaiPlayerIds round,
             yakuList = yakuList round, han = han round, fu = fu round,
             payments = payments round,
             roundNumber = currentRoundNumber s, roundWind = currentRoundWind s,
             round_honba = honba s, round_riichiBets = riichiBets s\<rparr>;
          updatedPlayers = apply_payments (payments round) (players s);
          count = length (players s);
          (newDealerIndex, newRoundNumber, newRoundWind, newPhase) =
            (if winnerIsDealer (players s) (winnerId round)
             then (dealerIndex s, currentRoundNumber s, currentRoundWind s, Playing)
             else rotate_dealer (dealerIndex s) (currentRoundNumber s) (currentRoundWind s) count);
          newHonba = (if winnerIsDealer (players s) (winnerId round) then honba s + 1 else 0);
          reassigned = reassign newDealerIndex count updatedPlayers
      in s\<lparr>players := reassigned, rounds := fullRound # rounds s,
            currentRoundNumber := newRoundNumber, currentRoundWind := newRoundWind,
            honba := newHonba, riichiBets := 0, playerRiichi := replicate count False,
            dealerIndex := newDealerIndex, phase := newPhase\<rparr>)"

text \<open>
  \<^verbatim>\<open>recordDraw\<close> reads \<^verbatim>\<open>players[dealerIndex].id\<close>; when no player sits at that index
  the read throws before \<^verbatim>\<open>set\<close> is reached and the store keeps its state.
\<close>

definition dealer_player :: "GameStore \<Rightarrow> Player option" where
  "dealer_player s =
     (case dealerIndex s of
        NaN \<Rightarrow> None
      | Fin d \<Rightarrow> if 0 \<le> d \<and> d < int (length (players s)) then Some (players s ! nat d) else None)"

definition recordDraw :: "string list \<Rightarrow> GameStore \<Rightarrow> error + GameStore" where
  "recordDraw tenpaiIds s =
     (let pm = computeDrawPayments (players s) tenpaiIds;
          fullRound =
            \<lparr>winnerId = None, loserId = None, isTsumo = False, isDraw = True,
             tenpaiPlayerIds = tenpaiIds, yakuList = [], han = 0, fu = 0, payments = pm,
             roundNumber = currentRoundNumber s, roundWind = currentRoundWind s,
             round_honba = honba s, round_riichiBets = riichiBets s\<rparr>;
          updatedPlayers = apply_payments pm (players s);
          count = length (players s)
      in case dealer_player s of
           None \<Rightarrow> Inl TypeError
         | Some dealer \<Rightarrow>
             let dealerIsTenpai = (player_id dealer \<in> set tenpaiIds);
                 (newDealerIndex, newRoundNumber, newRoundWind, newPhase) =
                   (if \<not> dealerIsTenpai
                    then rotate_dealer (dealerIndex s) (currentRoundNumber s) (currentRoundWind s) count
                    else (dealerIndex s, currentRoundNumber s, currentRoundWind s, Playing));
                 reassigned = reassign newDealerIndex count updatedPlayers
             in Inr (s\<lparr>players := reassigned, rounds := fullRound # rounds s,
                        currentRoundNumber := newRoundNumber, currentRoundWind := newRoundWind,
                        honba := honba s + 1, playerRiichi := replicate count False,
                        dealerIndex := newDealerIndex, phase := newPhase\<rparr>))"

definition endGame :: "GameStore \<Rightarrow> GameStore" where
  "endGame s = s\<lparr>phase := Finished\<rparr>"

definition resetGame :: "GameStore \<Rightarrow> GameStore" where
  "resetGame s =
     s\<lparr>phase := Setup, players := [], rounds := [], currentRoundNumber := Fin 1,
       currentRoundWind := East, honba := 0, riichiBets := 0, playerRiichi := [],
       dealerIndex := Fin 0\<rparr>"

section \<open>Sessions: the operation surface as data\<close>

text \<open>
  One constructor per store action, with the action's arguments. \<open>run\<close> dispatches a
  list of calls in order; a call that throws leaves the store as it was, since the
  exception is raised before \<^verbatim>\<open>set\<close> is reached.
\<close>

datatype op =
    InitGame "Player list" int
  | DeclareRiichi nat
  | UndoRiichi nat
  | RecordWin RoundFacts
  | RecordDraw "string list"
  | EndGame
  | ResetGame

fun apply_op :: "op \<Rightarrow> GameStore \<Rightarrow> error + GameStore" where
  "apply_op (InitGame ps start) s = Inr (initGame ps start s)"
| "apply_op (DeclareRiichi i) s = Inr (declareRiichi i s)"
| "apply_op (UndoRiichi i) s = Inr (undoRiichi i s)"
| "apply_op (RecordWin r) s = Inr (recordWin r s)"
| "apply_op (RecordDraw t) s = recordDraw t s"
| "apply_op EndGame s = Inr (endGame s)"
| "apply_op ResetGame s = Inr (resetGame s)"

fun run :: "op list \<Rightarrow> GameStore \<Rightarrow> GameStore" where
  "run [] s = s"
| "run (c # cs) s = run cs (case apply_op c s of Inl e \<Rightarrow> s | Inr s' \<Rightarrow> s')"

text \<open>
  The bet pool never goes negative and every seated player has a flag slot; both hold in
  the initial store and are kept by every action.
\<close>

definition pool_inv :: "GameStore \<Rightarrow> bool" where
  "pool_inv s = (0 \<le> riichiBets s \<and> length (players s) \<le> length (playerRiichi s))"

text \<open>
  The seating the dealer index describes: the index is a seat of the table, exactly that
  seat carries the dealer flag, and each seat wind is the one at offset
  \<open>(i - dealerIndex + count) mod count\<close> of \<^verbatim>\<open>WINDS\<close>.
\<close>

definition seats_ok :: "Player list \<Rightarrow> jsnum \<Rightarrow> bool" where
  "seats_ok ps dealerIdx =
     (case dealerIdx of
        NaN \<Rightarrow> False
      | Fin d \<Rightarrow>
          0 \<le> d \<and> d < int (length ps) \<and>
          length (filter isDealer ps) = 1 \<and>
          map isDealer ps = map (\<lambda>i. int i = d) [0..<length ps] \<and>
          map seatWind ps
            = map (\<lambda>i. WINDS_at ((int i - d + int (length ps)) mod int (length ps)))
                [0..<length ps])"

definition dealer_inv :: "GameStore \<Rightarrow> bool" where
  "dealer_inv s = seats_ok (players s) (dealerIndex s)"

fun keeps_seats :: "op \<Rightarrow> bool" where
  "keeps_seats ResetGame = False"
| "keeps_seats (InitGame ps start) = (ps \<noteq> [])"
| "keeps_seats c = True"

section \<open>Settled rounds\<close>

text \<open>
  A settled round is a call of \<^verbatim>\<open>recordWin\<close> or \<^verbatim>\<open>recordDraw\<close> together with the
  settlement that yields its payment mapping: a self-drawn win through
  \<open>computeTsumoPayments\<close>, a discard win through the transfer of \<open>scoreModalPayments\<close>
  between two different seated players, an exhaustive draw with the tenpai players given
  as a duplicate-free list of seated ids. \<open>settle\<close> is \<open>None\<close> exactly for outcome
  facts that are not of this form; a calculator or a call that throws leaves the store as
  it was. \<open>play\<close> settles rounds in order.
\<close>

datatype settlement =
    TsumoWin RoundFacts int int int
  | RonWin RoundFacts ScoreResponse
  | ExhaustiveDraw "string list"

fun settle :: "settlement \<Rightarrow> GameStore \<Rightarrow> GameStore option" where
  "settle (TsumoWin r dealerPayment nonDealerPayment totalPoints) s =
     (case winnerId r of
        None \<Rightarrow> None
      | Some w \<Rightarrow>
          (case computeTsumoPayments (players s) w dealerPayment nonDealerPayment totalPoints of
             Inl e \<Rightarrow> Some s
           | Inr pm \<Rightarrow> Some (recordWin (r\<lparr>payments := pm\<rparr>) s)))"
| "settle (RonWin r response) s =
     (case (winnerId r, loserId r) of
        (Some w, Some l) \<Rightarrow>
          if w \<in> player_id ` set (players s) \<and> l \<in> player_id ` set (players s) \<and> l \<noteq> w
          then (case scoreModalPayments (players s) w (Some l) False response of
                  Inl e \<Rightarrow> Some s
                | Inr pm \<Rightarrow> Some (recordWin (r\<lparr>payments := pm\<rparr>) s))
          else None
      | _ \<Rightarrow> None)"
| "settle (ExhaustiveDraw tenpaiIds) s =
     (if distinct tenpaiIds \<and> set tenpaiIds \<subseteq> player_id ` set (players s)
      then (case recordDraw tenpaiIds s of Inl e \<Rightarrow> Some s | Inr s' \<Rightarrow> Some s')
      else None)"

fun play :: "settlement list \<Rightarrow> GameStore \<Rightarrow> GameStore option" where
  "play [] s = Some s"
| "play (c # cs) s = (case settle c s of None \<Rightarrow> None | Some s' \<Rightarrow> play cs s')"

definition conserved :: "Player list \<Rightarrow> int \<Rightarrow> GameStore \<Rightarrow> bool" where
  "conserved ps start s =
     (map player_id (players s) = map player_id ps \<and> riichiBets s = 0 \<and>
      startingScore s = start \<and>
      sum_list (map score (players s)) = int (length ps) * start)"

section \<open>A concrete table\<close>

text \<open>
  Four players as \<^verbatim>\<open>SetupScreen.handleStart\<close> builds them (ids \<^verbatim>\<open>player-0\<close> to
  \<^verbatim>\<open>player-3\<close>), used to evaluate the model on concrete calls.
\<close>

definition table4 :: "Player list" where
  "table4 =
     [\<lparr>player_id = ''player-0'', name = ''A'', iconId = ''i0'', seatWind = Some East,
       score = 25000, isDealer = True\<rparr>,
      \<lparr>player_id = ''player-1'', name = ''B'', iconId = ''i1'', seatWind = Some South,
       score = 25000, isDealer = False\<rparr>,
      \<lparr>player_id = ''player-2'', name = ''C'', iconId = ''i2'', seatWind = Some West,
       score = 25000, isDealer = False\<rparr>,
      \<lparr>player_id = ''player-3'', name = ''D'', iconId = ''i3'', seatWind = Some North,
       score = 25000, isDealer = False\<rparr>]"

definition started :: GameStore where
  "started = initGame table4 25000 initialStore"

text \<open>A self-drawn win of \<open>w\<close> with the payment mapping \<open>pm\<close>, as \<^verbatim>\<open>RoundModal\<close> passes it.\<close>

definition win_of :: "string \<Rightarrow> payment_map \<Rightarrow> RoundFacts" where
  "win_of w pm =
     \<lparr>winnerId = Some w, loserId = None, isTsumo = True, isDraw = False,
      tenpaiPlayerIds = [], yakuList = [], han = 1, fu = 30, payments = pm\<rparr>"

definition dealer_tsumo :: RoundFacts where
  "dealer_tsumo =
     win_of ''player-0''
       [(''player-0'', 6000), (''player-1'', - 2000), (''player-2'', - 2000),
        (''player-3'', - 2000)]"

definition east4 :: GameStore where
  "east4 =
     run [RecordWin (win_of ''player-1'' []), RecordWin (win_of ''player-2'' []),
          RecordWin (win_of ''player-3'' [])] started"

definition ron_facts :: "string \<Rightarrow> string \<Rightarrow> RoundFacts" where
  "ron_facts w l =
     \<lparr>winnerId = Some w, loserId = Some l, isTsumo = False, isDraw = False,
      tenpaiPlayerIds = [], yakuList = [], han = 3, fu = 40, payments = []\<rparr>"

definition response :: ScoreResponse where
  "response =
     \<lparr>is_winning = True, yaku = [], resp_han = 3, resp_fu = 40, base_points = 1280,
      total_points = 5200, dealer_payment = 2600, non_dealer_payment = 1300,
      honba_bonus = 0, riichi_sticks_bonus = 0, resp_is_yakuman = False, error_msg = None\<rparr>"

text \<open>
  Three settled rounds: a draw with seat 1 tenpai, a self-drawn win of seat 2, a discard
  win of seat 0 from seat 3.
\<close>

definition three_rounds :: "settlement list" where
  "three_rounds =
     [ExhaustiveDraw [''player-1''],
      TsumoWin (win_of ''player-2'' []) 2000 1000 4000,
      RonWin (ron_facts ''player-0'' ''player-3'') response]"

text \<open>A bet, a draw that moves the dealer, and a non-dealer win.\<close>

definition mixed_calls :: "op list" where
  "mixed_calls =
     [DeclareRiichi 1, RecordDraw [''player-1''], RecordWin (win_of ''player-3'' [])]"

section \<open>Basic facts\<close>

text \<open>The defining equations of the store's actions and of what they call.\<close>

lemmas store_defs =
  initialStore_def initGame_def declareRiichi_def undoRiichi_def recordWin_def recordDraw_def
  endGame_def resetGame_def flag_at_def set_flag_def map_index_def dealer_player_def
  computeDrawPayments_def zero_payments_def rotate_dealer_def reassign_def apply_payments_def
  winnerIsDealer_def js_rem_def seatWindOf_def WINDS_at_def WINDS_def lookup0_def Let_def

lemma length_map_index [simp]: "length (map_index f xs) = length xs"
  by (simp add: map_index_def)

lemma nth_map_index: "i < length xs \<Longrightarrow> map_index f xs ! i = f i (xs ! i)"
  by (simp add: map_index_def nth_enumerate_eq)

lemma map_index_comp: "map_index f (map_index g xs) = map_index (\<lambda>i x. f i (g i x)) xs"
  by (rule nth_equalityI) (simp_all add: nth_map_index)

lemma map_index_ident: "(\<And>i x. f i x = x) \<Longrightarrow> map_index f xs = xs"
  by (rule nth_equalityI) (simp_all add: nth_map_index)

lemma length_set_flag: "length xs \<le> length (set_flag xs i v)"
  by (simp add: set_flag_def)

lemma length_reassign [simp]: "length (reassign d n ps) = length ps"
  by (simp add: reassign_def)

lemma length_apply_payments [simp]: "length (apply_payments pm ps) = length ps"
  by (simp add: apply_payments_def)

lemma next_dealer:
  assumes "n \<noteq> 0"
  shows "num_rem (num_add (Fin (int d)) 1) n = Fin (int ((d + 1) mod n))"
  using assms by (simp add: js_rem_def zmod_int add.commute)

section \<open>Association lists as payment mappings\<close>

lemma keys_fold_update_old:
  "f ` set qs \<subseteq> set (map fst al) \<Longrightarrow>
   map fst (fold (\<lambda>p. AList.update (f p) (h p)) qs al) = map fst al"
proof (induction qs arbitrary: al)
  case Nil
  then show ?case by simp
next
  case (Cons q qs)
  have k: "map fst (AList.update (f q) (h q) al) = map fst al"
    using Cons.prems by (simp add: update_keys)
  then have "f ` set qs \<subseteq> set (map fst (AList.update (f q) (h q) al))"
    using Cons.prems by simp
  then have "map fst (fold (\<lambda>p. AList.update (f p) (h p)) qs (AList.update (f q) (h q) al))
      = map fst (AList.update (f q) (h q) al)"
    by (rule Cons.IH)
  with k show ?case by simp
qed

lemma keys_fold_update_new:
  "distinct (map f qs) \<Longrightarrow> f ` set qs \<inter> set (map fst al) = {} \<Longrightarrow>
   map fst (fold (\<lambda>p. AList.update (f p) (h p)) qs al) = map fst al @ map f qs"
proof (induction qs arbitrary: al)
  case Nil
  then show ?case by simp
next
  case (Cons q qs)
  have k: "map fst (AList.update (f q) (h q) al) = map fst al @ [f q]"
    using Cons.prems by (simp add: update_keys)
  have "distinct (map f qs)" using Cons.prems by simp
  moreover have "f ` set qs \<inter> set (map fst (AList.update (f q) (h q) al)) = {}"
    unfolding k using Cons.prems by auto
  ultimately have "map fst (fold (\<lambda>p. AList.update (f p) (h p)) qs (AList.update (f q) (h q) al))
      = map fst (AList.update (f q) (h q) al) @ map f qs"
    by (rule Cons.IH)
  with k show ?case by simp
qed

lemma map_of_fold_update_out:
  "k \<notin> f ` set qs \<Longrightarrow>
   map_of (fold (\<lambda>p. AList.update (f p) (h p)) qs al) k = map_of al k"
  by (induction qs arbitrary: al) (auto simp: update_conv')

lemma map_of_fold_update_in:
  "distinct (map f qs) \<Longrightarrow> p \<in> set qs \<Longrightarrow>
   map_of (fold (\<lambda>p. AList.update (f p) (h p)) qs al) (f p) = Some (h p)"
proof (induction qs arbitrary: al)
  case Nil
  then show ?case by simp
next
  case (Cons q qs)
  show ?case
  proof (cases "p = q")
    case True
    with Cons.prems have "f q \<notin> f ` set qs" by auto
    then show ?thesis
      using True by (simp add: map_of_fold_update_out update_conv')
  next
    case False
    with Cons show ?thesis by simp
  qed
qed

lemma values_by_keys:
  "distinct (map fst al) \<Longrightarrow> map (\<lambda>k. the (map_of al k)) (map fst al) = map snd al"
  by (induction al) (auto simp: rev_image_eqI)

lemma alist_by_keys:
  assumes "distinct (map fst al)"
  shows "map (\<lambda>k. (k, the (map_of al k))) (map fst al) = al"
proof -
  have "map (\<lambda>kv. (fst kv, the (map_of al (fst kv)))) al = map (\<lambda>kv. kv) al"
  proof (rule map_cong [OF refl])
    fix kv assume "kv \<in> set al"
    then have "(fst kv, snd kv) \<in> set al" by simp
    with assms have "map_of al (fst kv) = Some (snd kv)"
      by (rule map_of_is_SomeI)
    then show "(fst kv, the (map_of al (fst kv))) = kv" by simp
  qed
  then show ?thesis by (simp add: comp_def)
qed

lemma keys_zero_payments:
  "distinct (map player_id ps) \<Longrightarrow> map fst (zero_payments ps) = map player_id ps"
  unfolding zero_payments_def
  using keys_fold_update_new [of player_id ps "[]" "\<lambda>p. 0"] by simp

lemma map_of_zero_payments:
  "distinct (map player_id ps) \<Longrightarrow> p \<in> set ps \<Longrightarrow>
   map_of (zero_payments ps) (player_id p) = Some 0"
  unfolding zero_payments_def
  using map_of_fold_update_in [of player_id ps p "\<lambda>p. 0" "[]"] by simp

lemma zero_payments_eq:
  assumes "distinct (map player_id ps)"
  shows "zero_payments ps = map (\<lambda>p. (player_id p, 0)) ps"
proof -
  have k: "map fst (zero_payments ps) = map player_id ps"
    using assms by (rule keys_zero_payments)
  then have "distinct (map fst (zero_payments ps))" using assms by simp
  then have "zero_payments ps
      = map (\<lambda>k. (k, the (map_of (zero_payments ps) k))) (map fst (zero_payments ps))"
    by (simp only: alist_by_keys)
  also have "\<dots> = map (\<lambda>p. (player_id p, the (map_of (zero_payments ps) (player_id p)))) ps"
    by (simp add: k comp_def)
  also have "\<dots> = map (\<lambda>p. (player_id p, 0)) ps"
    using assms by (simp add: map_of_zero_payments)
  finally show ?thesis .
qed

section \<open>Counting tenpai and noten players\<close>

lemma sum_list_if_count:
  "sum_list (map (\<lambda>p. if P p then a else b) ps)
     = a * int (length (filter P ps)) + b * int (length (filter (\<lambda>p. \<not> P p) ps))"
  by (induction ps) (simp_all add: algebra_simps)

lemma count_tenpai:
  assumes "distinct (map player_id ps)" and "distinct t" and "set t \<subseteq> player_id ` set ps"
  shows "length (filter (\<lambda>p. player_id p \<in> set t) ps) = length t"
proof -
  have "length (filter (\<lambda>p. player_id p \<in> set t) ps)
      = length (filter (\<lambda>i. i \<in> set t) (map player_id ps))"
    by (simp add: filter_map comp_def)
  also have "\<dots> = card ({i. i \<in> set t} \<inter> set (map player_id ps))"
    using assms(1) by (rule distinct_length_filter)
  also have "{i. i \<in> set t} \<inter> set (map player_id ps) = set t"
    using assms(3) by auto
  also have "card (set t) = length t"
    using assms(2) by (rule distinct_card)
  finally show ?thesis .
qed

lemma count_noten:
  "length (filter (\<lambda>i. i \<notin> set t) (map player_id ps))
     = length (filter (\<lambda>p. player_id p \<notin> set t) ps)"
  by (simp add: filter_map comp_def)

lemma count_split:
  "length (filter (\<lambda>p. player_id p \<in> set t) ps) + length (filter (\<lambda>p. player_id p \<notin> set t) ps)
     = length ps"
  using sum_length_filter_compl [of "\<lambda>p. player_id p \<in> set t" ps] by simp

lemma all_tenpai_iff:
  assumes "distinct (map player_id ps)" and "distinct t" and "set t \<subseteq> player_id ` set ps"
  shows "(length t = length ps) = (set t = player_id ` set ps)"
proof
  assume "length t = length ps"
  then have "card (set t) = card (player_id ` set ps)"
    using assms(1,2) distinct_card [of t] distinct_card [of "map player_id ps"] by simp
  with assms(3) show "set t = player_id ` set ps"
    by (simp add: card_subset_eq)
next
  assume "set t = player_id ` set ps"
  then have "card (set t) = card (set (map player_id ps))" by simp
  then show "length t = length ps"
    using assms(1,2) distinct_card [of t] distinct_card [of "map player_id ps"] by simp
qed

lemma keys_draw:
  assumes "distinct (map player_id ps)" and "set t \<subseteq> player_id ` set ps"
  shows "map fst (computeDrawPayments ps t) = map player_id ps"
proof -
  let ?noten = "filter (\<lambda>i. i \<notin> set t) (map player_id ps)"
  have k0: "map fst (zero_payments ps) = map player_id ps"
    using assms(1) by (rule keys_zero_payments)
  have k1: "map fst (fold (\<lambda>i. AList.update i r) t (zero_payments ps)) = map player_id ps" for r
    using keys_fold_update_old [of "\<lambda>i. i" t "zero_payments ps" "\<lambda>i. r"] assms(2) k0 by simp
  have k2: "map fst (fold (\<lambda>i. AList.update i q) ?noten
                (fold (\<lambda>i. AList.update i r) t (zero_payments ps))) = map player_id ps" for r q
    using keys_fold_update_old [of "\<lambda>i. i" ?noten
            "fold (\<lambda>i. AList.update i r) t (zero_payments ps)" "\<lambda>i. q"] k1 [of r]
    by auto
  show ?thesis
    by (simp add: computeDrawPayments_def Let_def k0 k2)
qed

lemma map_of_draw:
  assumes "distinct (map player_id ps)" and "distinct t" and "p \<in> set ps"
    and "t \<noteq> []" and "length t \<noteq> length ps"
  shows "map_of (computeDrawPayments ps t) (player_id p)
     = Some (if player_id p \<in> set t then 3000 div int (length t)
             else - (3000 div int (length (filter (\<lambda>p. player_id p \<notin> set t) ps))))"
proof -
  let ?noten = "filter (\<lambda>i. i \<notin> set t) (map player_id ps)"
  let ?r = "3000 div int (length t)"
  let ?q = "3000 div int (length ?noten)"
  let ?p1 = "fold (\<lambda>i. AList.update i ?r) t (zero_payments ps)"
  have res: "computeDrawPayments ps t = fold (\<lambda>i. AList.update i (- ?q)) ?noten ?p1"
    using assms(4,5) by (simp add: computeDrawPayments_def Let_def)
  show ?thesis
  proof (cases "player_id p \<in> set t")
    case True
    then have "player_id p \<notin> (\<lambda>i. i) ` set ?noten" by simp
    then have "map_of (fold (\<lambda>i. AList.update i (- ?q)) ?noten ?p1) (player_id p)
        = map_of ?p1 (player_id p)"
      by (rule map_of_fold_update_out)
    also have "\<dots> = Some ?r"
      using map_of_fold_update_in [of "\<lambda>i. i" t "player_id p" "\<lambda>i. ?r" "zero_payments ps"]
        assms(2) True by simp
    finally show ?thesis using True by (simp add: res)
  next
    case False
    have "distinct (map (\<lambda>i. i) ?noten)"
      using assms(1) by simp
    moreover have "player_id p \<in> set ?noten"
      using False assms(3) by simp
    ultimately have "map_of (fold (\<lambda>i. AList.update i (- ?q)) ?noten ?p1) (player_id p)
        = Some (- ?q)"
      by (rule map_of_fold_update_in [where f = "\<lambda>i. i"])
    then show ?thesis using False by (simp add: res count_noten comp_def)
  qed
qed

lemma sum_payment_map:
  assumes "map fst pm = map player_id ps" and "distinct (map player_id ps)"
  shows "sum_list (map snd pm) = (\<Sum>p\<leftarrow>ps. the (map_of pm (player_id p)))"
proof -
  have "distinct (map fst pm)" using assms by simp
  then have "map snd pm = map (\<lambda>k. the (map_of pm k)) (map fst pm)"
    by (simp only: values_by_keys)
  also have "\<dots> = map (\<lambda>p. the (map_of pm (player_id p))) ps"
    by (simp add: assms(1) comp_def)
  finally show ?thesis by simp
qed

lemma split_3000:
  assumes "0 < n" and "n < 4"
  shows "3000 div int n * int n = 3000"
proof -
  from assms have "n = 1 \<or> n = 2 \<or> n = 3" by arith
  then show ?thesis by auto
qed


lemma draw_sum_players:
  assumes "length ps = 3 \<or> length ps = 4" and "distinct (map player_id ps)"
    and "distinct t" and "set t \<subseteq> player_id ` set ps"
  shows "(\<Sum>p\<leftarrow>ps. the (map_of (computeDrawPayments ps t) (player_id p))) = 0"
proof (cases "t = [] \<or> length t = length ps")
  case True
  then have "computeDrawPayments ps t = map (\<lambda>p. (player_id p, 0)) ps"
    using assms(2) by (auto simp: computeDrawPayments_def Let_def zero_payments_eq)
  moreover have "map_of (map (\<lambda>p. (player_id p, 0::int)) ps) (player_id p) = Some 0"
    if "p \<in> set ps" for p
    using that assms(2) by (intro map_of_is_SomeI) (auto simp: comp_def)
  ultimately have "map (\<lambda>p. the (map_of (computeDrawPayments ps t) (player_id p))) ps
      = map (\<lambda>p. 0) ps"
    by simp
  then have "(\<Sum>p\<leftarrow>ps. the (map_of (computeDrawPayments ps t) (player_id p)))
      = sum_list (map (\<lambda>p. 0) ps)"
    by (simp only:)
  then show ?thesis by simp
next
  case False
  let ?T = "length (filter (\<lambda>p. player_id p \<in> set t) ps)"
  let ?N = "length (filter (\<lambda>p. player_id p \<notin> set t) ps)"
  have T: "?T = length t" using assms(2,3,4) by (rule count_tenpai)
  have TN: "?T + ?N = length ps" by (rule count_split)
  have pos: "0 < ?T" using False T by simp
  have "?T \<le> length ps" using TN by arith
  with False T have lt: "?T < length ps" by simp
  have bounds: "0 < ?T" "?T < 4" "0 < ?N" "?N < 4"
    using pos lt TN assms(1) by arith+
  have "map (\<lambda>p. the (map_of (computeDrawPayments ps t) (player_id p))) ps
      = map (\<lambda>p. if player_id p \<in> set t then 3000 div int ?T else - (3000 div int ?N)) ps"
    using False map_of_draw [OF assms(2,3)] T by simp
  then have "(\<Sum>p\<leftarrow>ps. the (map_of (computeDrawPayments ps t) (player_id p)))
      = 3000 div int ?T * int ?T + - (3000 div int ?N) * int ?N"
    by (simp only: sum_list_if_count)
  also have "\<dots> = 0"
    using split_3000 [OF bounds(1,2)] split_3000 [OF bounds(3,4)] by simp
  finally show ?thesis .
qed

section \<open>Draw settlement\<close>

text \<open>
  Claim C5. For a player list with pairwise distinct ids and a tenpai set given as a
  duplicate-free list of ids of those players, \<open>computeDrawPayments\<close> returns the
  all-zero mapping over the full player list when the tenpai set is empty or holds every
  player; otherwise every tenpai player is assigned \<open>+floor(3000 / tenpaiCount)\<close> and
  every other player \<open>-floor(3000 / notenCount)\<close>, the counts being the numbers of
  tenpai and of non-tenpai players. In both cases the keys of the mapping are exactly the
  ids of the players, in seating order.
\<close>

theorem computeDrawPayments_rule:
  assumes "distinct (map player_id ps)" and "distinct tenpaiIds"
    and "set tenpaiIds \<subseteq> player_id ` set ps"
  shows "(set tenpaiIds = {} \<or> set tenpaiIds = player_id ` set ps \<longrightarrow>
            computeDrawPayments ps tenpaiIds = map (\<lambda>p. (player_id p, 0)) ps) \<and>
         (set tenpaiIds \<noteq> {} \<and> set tenpaiIds \<noteq> player_id ` set ps \<longrightarrow>
            (\<forall>p \<in> set ps.
               map_of (computeDrawPayments ps tenpaiIds) (player_id p)
                 = Some (if player_id p \<in> set tenpaiIds
                         then 3000 div int (length (filter (\<lambda>q. player_id q \<in> set tenpaiIds) ps))
                         else - (3000 div int (length (filter (\<lambda>q. player_id q \<notin> set tenpaiIds) ps)))))) \<and>
         map fst (computeDrawPayments ps tenpaiIds) = map player_id ps"
proof -
  have full: "(length tenpaiIds = length ps) = (set tenpaiIds = player_id ` set ps)"
    using assms by (rule all_tenpai_iff)
  have cnt: "length (filter (\<lambda>q. player_id q \<in> set tenpaiIds) ps) = length tenpaiIds"
    using assms by (rule count_tenpai)
  have zero: "set tenpaiIds = {} \<or> set tenpaiIds = player_id ` set ps \<longrightarrow>
      computeDrawPayments ps tenpaiIds = map (\<lambda>p. (player_id p, 0)) ps"
    using full assms(1) by (auto simp: computeDrawPayments_def Let_def zero_payments_eq)
  have exch: "set tenpaiIds \<noteq> {} \<and> set tenpaiIds \<noteq> player_id ` set ps \<longrightarrow>
      (\<forall>p \<in> set ps.
         map_of (computeDrawPayments ps tenpaiIds) (player_id p)
           = Some (if player_id p \<in> set tenpaiIds
                   then 3000 div int (length (filter (\<lambda>q. player_id q \<in> set tenpaiIds) ps))
                   else - (3000 div int (length (filter (\<lambda>q. player_id q \<notin> set tenpaiIds) ps)))))"
    unfolding cnt using full map_of_draw [OF assms(1,2)] by simp
  have keys: "map fst (computeDrawPayments ps tenpaiIds) = map player_id ps"
    using assms(1,3) by (rule keys_draw)
  from zero exch keys show ?thesis by blast
qed

text \<open>
  The rule at the four-player table with \<^verbatim>\<open>player-2\<close> alone tenpai: that player receives
  3000 and each of the three others pays 1000.
\<close>

theorem computeDrawPayments_rule_witness:
  "distinct (map player_id table4) \<and> distinct [''player-2''] \<and>
   set [''player-2''] \<subseteq> player_id ` set table4 \<and>
   set [''player-2''] \<noteq> {} \<and> set [''player-2''] \<noteq> player_id ` set table4 \<and>
   map_of (computeDrawPayments table4 [''player-2'']) ''player-0'' = Some (- 1000) \<and>
   map_of (computeDrawPayments table4 [''player-2'']) ''player-1'' = Some (- 1000) \<and>
   map_of (computeDrawPayments table4 [''player-2'']) ''player-2'' = Some 3000 \<and>
   map_of (computeDrawPayments table4 [''player-2'']) ''player-3'' = Some (- 1000) \<and>
   map fst (computeDrawPayments table4 [''player-2''])
     = [''player-0'', ''player-1'', ''player-2'', ''player-3'']"
proof -
  have h1: "distinct (map player_id table4)" by (simp add: table4_def)
  have h2: "distinct [''player-2'']" by simp
  have h3: "set [''player-2''] \<subseteq> player_id ` set table4" by (simp add: table4_def)
  have h4: "set [''player-2''] \<noteq> {} \<and> set [''player-2''] \<noteq> player_id ` set table4"
    by (auto simp: table4_def)
  have c1: "length (filter (\<lambda>q. player_id q \<in> set [''player-2'']) table4) = 1"
    by (simp add: table4_def)
  have c2: "length (filter (\<lambda>q. player_id q \<notin> set [''player-2'']) table4) = 3"
    by (simp add: table4_def)
  have ids: "map player_id table4 = [''player-0'', ''player-1'', ''player-2'', ''player-3'']"
    by (simp add: table4_def)
  from computeDrawPayments_rule [OF h1 h2 h3] h4
  have all: "\<forall>p \<in> set table4.
      map_of (computeDrawPayments table4 [''player-2'']) (player_id p)
        = Some (if player_id p = ''player-2'' then 3000 else - 1000)"
    and keys: "map fst (computeDrawPayments table4 [''player-2''])
        = [''player-0'', ''player-1'', ''player-2'', ''player-3'']"
    unfolding c1 c2 ids by simp_all
  have "map_of (computeDrawPayments table4 [''player-2'']) ''player-0'' = Some (- 1000) \<and>
     map_of (computeDrawPayments table4 [''player-2'']) ''player-1'' = Some (- 1000) \<and>
     map_of (computeDrawPayments table4 [''player-2'']) ''player-2'' = Some 3000 \<and>
     map_of (computeDrawPayments table4 [''player-2'']) ''player-3'' = Some (- 1000)"
  proof -
    have "\<forall>k \<in> set (map player_id table4).
        map_of (computeDrawPayments table4 [''player-2'']) k
          = Some (if k = ''player-2'' then 3000 else - 1000)"
      using all by simp
    then show ?thesis unfolding ids by simp
  qed
  with h1 h2 h3 h4 keys show ?thesis by blast
qed

text \<open>
  Claim C10. For a player list of size 3 or 4 with distinct ids and every tenpai subset
  (a duplicate-free list of ids of those players), the values of the mapping returned by
  \<open>computeDrawPayments\<close> sum to exactly zero.
\<close>

theorem computeDrawPayments_zero_sum:
  assumes "length ps = 3 \<or> length ps = 4" and "distinct (map player_id ps)"
    and "distinct tenpaiIds" and "set tenpaiIds \<subseteq> player_id ` set ps"
  shows "sum_list (map snd (computeDrawPayments ps tenpaiIds)) = 0"
proof -
  have "map fst (computeDrawPayments ps tenpaiIds) = map player_id ps"
    using assms(2,4) by (rule keys_draw)
  then have "sum_list (map snd (computeDrawPayments ps tenpaiIds))
      = (\<Sum>p\<leftarrow>ps. the (map_of (computeDrawPayments ps tenpaiIds) (player_id p)))"
    using assms(2) by (rule sum_payment_map)
  with draw_sum_players [OF assms] show ?thesis by simp
qed

theorem computeDrawPayments_zero_sum_witness:
  "(length table4 = 3 \<or> length table4 = 4) \<and> distinct (map player_id table4) \<and>
   distinct [''player-1'', ''player-3''] \<and>
   set [''player-1'', ''player-3''] \<subseteq> player_id ` set table4 \<and>
   sum_list (map snd (computeDrawPayments table4 [''player-1'', ''player-3''])) = 0"
proof -
  have h1: "length table4 = 3 \<or> length table4 = 4" by (simp add: table4_def)
  have h2: "distinct (map player_id table4)" by (simp add: table4_def)
  have h3: "distinct [''player-1'', ''player-3'']" by simp
  have h4: "set [''player-1'', ''player-3''] \<subseteq> player_id ` set table4"
    by (simp add: table4_def)
  from computeDrawPayments_zero_sum [OF h1 h2 h3 h4] h1 h2 h3 h4 show ?thesis by blast
qed

section \<open>The fold of the self-drawn win\<close>

lemma tsumo_step_eq:
  "tsumo_step w wd dp ndp p (al, c)
     = (if player_id p = w then (al, c)
        else (AList.update (player_id p) (- tsumo_pays wd dp ndp p) al,
              c + tsumo_pays wd dp ndp p))"
  by (simp add: tsumo_step_def tsumo_pays_def Let_def)

lemma fold_tsumo_step:
  "fold (tsumo_step w wd dp ndp) qs (al, c)
     = (fold (\<lambda>p. AList.update (player_id p) (- tsumo_pays wd dp ndp p))
          (filter (\<lambda>p. player_id p \<noteq> w) qs) al,
        c + sum_list (map (tsumo_pays wd dp ndp) (filter (\<lambda>p. player_id p \<noteq> w) qs)))"
  by (induction qs arbitrary: al c) (simp_all add: tsumo_step_eq)

lemma sum_list_single_out:
  "distinct (map f ps) \<Longrightarrow> w \<in> f ` set ps \<Longrightarrow>
   (\<Sum>p\<leftarrow>ps. if f p = w then c else g p)
     = (c :: int) + (\<Sum>p\<leftarrow>filter (\<lambda>p. f p \<noteq> w) ps. g p)"
proof (induction ps)
  case Nil
  then show ?case by simp
next
  case (Cons q ps)
  show ?case
  proof (cases "f q = w")
    case True
    then have "w \<notin> f ` set ps" using Cons.prems(1) by auto
    then have "filter (\<lambda>p. f p \<noteq> w) ps = ps" by (auto simp: filter_id_conv)
    moreover have "map (\<lambda>p. if f p = w then c else g p) ps = map g ps"
      using \<open>w \<notin> f ` set ps\<close> by auto
    then have "(\<Sum>p\<leftarrow>ps. if f p = w then c else g p) = sum_list (map g ps)"
      by (simp only:)
    ultimately show ?thesis using True by simp
  next
    case False
    with Cons show ?thesis by auto
  qed
qed

lemma sum_list_negate: "(\<Sum>p\<leftarrow>ps. - g p) = - (\<Sum>p\<leftarrow>ps. (g p :: int))"
  by (induction ps) simp_all

lemma find_winner:
  "w \<in> player_id ` set ps \<Longrightarrow> \<exists>x. find (\<lambda>p. player_id p = w) ps = Some x \<and> x \<in> set ps"
  by (cases "find (\<lambda>p. player_id p = w) ps") (auto simp: find_None_iff find_Some_iff)

lemma tsumo_result:
  assumes "find (\<lambda>p. player_id p = w) ps = Some x"
  shows "computeTsumoPayments ps w dp ndp tot
     = Inr (AList.update w
              (sum_list (map (tsumo_pays (isDealer x) dp ndp) (filter (\<lambda>p. player_id p \<noteq> w) ps)))
              (fold (\<lambda>p. AList.update (player_id p) (- tsumo_pays (isDealer x) dp ndp p))
                 (filter (\<lambda>p. player_id p \<noteq> w) ps) (zero_payments ps)))"
  by (simp add: computeTsumoPayments_def assms fold_tsumo_step)

lemma tsumo_facts:
  assumes d: "distinct (map player_id ps)" and f: "find (\<lambda>p. player_id p = w) ps = Some x"
    and r: "computeTsumoPayments ps w dp ndp tot = Inr pm"
  shows "map fst pm = map player_id ps"
    and "map_of pm w
      = Some (sum_list (map (tsumo_pays (isDealer x) dp ndp) (filter (\<lambda>p. player_id p \<noteq> w) ps)))"
    and "\<And>p. p \<in> set ps \<Longrightarrow> player_id p \<noteq> w \<Longrightarrow>
           map_of pm (player_id p) = Some (- tsumo_pays (isDealer x) dp ndp p)"
proof -
  let ?others = "filter (\<lambda>p. player_id p \<noteq> w) ps"
  let ?pmf = "fold (\<lambda>p. AList.update (player_id p) (- tsumo_pays (isDealer x) dp ndp p))
                 ?others (zero_payments ps)"
  let ?c = "sum_list (map (tsumo_pays (isDealer x) dp ndp) ?others)"
  have pm: "pm = AList.update w ?c ?pmf"
    using r tsumo_result [OF f, of dp ndp tot] by simp
  have w: "w \<in> player_id ` set ps"
    using f by (auto simp: find_Some_iff)
  have k0: "map fst (zero_payments ps) = map player_id ps"
    using d by (rule keys_zero_payments)
  have "player_id ` set ?others \<subseteq> set (map fst (zero_payments ps))"
    unfolding k0 by auto
  then have k1: "map fst ?pmf = map player_id ps"
    using keys_fold_update_old [of player_id ?others "zero_payments ps"] k0 by simp
  show "map fst pm = map player_id ps"
    using w by (simp add: pm update_keys k1)
  show "map_of pm w = Some ?c"
    by (simp add: pm update_conv')
  show "map_of pm (player_id p) = Some (- tsumo_pays (isDealer x) dp ndp p)"
    if "p \<in> set ps" and "player_id p \<noteq> w" for p
  proof -
    have "distinct (map player_id ?others)"
      using d by (rule distinct_map_filter)
    moreover have "p \<in> set ?others" using that by simp
    ultimately have "map_of ?pmf (player_id p) = Some (- tsumo_pays (isDealer x) dp ndp p)"
      by (rule map_of_fold_update_in)
    then show ?thesis using that(2) by (simp add: pm update_conv')
  qed
qed

lemma tsumo_sum_players:
  assumes d: "distinct (map player_id ps)"
    and r: "computeTsumoPayments ps w dp ndp tot = Inr pm"
  shows "map fst pm = map player_id ps \<and> (\<Sum>p\<leftarrow>ps. the (map_of pm (player_id p))) = 0"
proof -
  obtain x where f: "find (\<lambda>p. player_id p = w) ps = Some x"
    using r by (cases "find (\<lambda>p. player_id p = w) ps") (simp_all add: computeTsumoPayments_def)
  let ?others = "filter (\<lambda>p. player_id p \<noteq> w) ps"
  let ?pay = "tsumo_pays (isDealer x) dp ndp"
  let ?c = "sum_list (map ?pay ?others)"
  note facts = tsumo_facts [OF d f r]
  have w: "w \<in> player_id ` set ps"
    using f by (auto simp: find_Some_iff)
  have "map (\<lambda>p. the (map_of pm (player_id p))) ps
      = map (\<lambda>p. if player_id p = w then ?c else - ?pay p) ps"
    using facts(2,3) by auto
  then have "(\<Sum>p\<leftarrow>ps. the (map_of pm (player_id p)))
      = (\<Sum>p\<leftarrow>ps. if player_id p = w then ?c else - ?pay p)"
    by (simp only:)
  also have "\<dots> = ?c + (\<Sum>p\<leftarrow>?others. - ?pay p)"
    using d w by (rule sum_list_single_out)
  also have "\<dots> = 0"
    by (simp add: sum_list_negate)
  finally show ?thesis using facts(1) by simp
qed

lemma fold_add: "fold (\<lambda>p sum. sum + h p) xs (a :: int) = a + sum_list (map h xs)"
  by (induction xs arbitrary: a) simp_all

lemma fold_skip_winner:
  "fold (\<lambda>p pm. if player_id p = w then pm else AList.update (player_id p) (h p) pm) qs al
     = fold (\<lambda>p. AList.update (player_id p) (h p)) (filter (\<lambda>p. player_id p \<noteq> w) qs) al"
  by (induction qs arbitrary: al) simp_all

lemma winnerIsDealer_find:
  "find (\<lambda>p. player_id p = w) ps = Some x \<Longrightarrow> winnerIsDealer ps (Some w) = isDealer x"
  by (simp add: winnerIsDealer_def)

lemma scoreModal_tsumo:
  assumes d: "distinct (map player_id ps)" and f: "find (\<lambda>p. player_id p = w) ps = Some x"
    and win: "is_winning resp"
    and nonneg: "0 \<le> dealer_payment resp" "0 \<le> non_dealer_payment resp"
  shows "scoreModalPayments ps w loser True resp
     = computeTsumoPayments ps w (dealer_payment resp) (non_dealer_payment resp) tot"
proof -
  let ?dp = "dealer_payment resp" and ?ndp = "non_dealer_payment resp"
  let ?others = "filter (\<lambda>p. player_id p \<noteq> w) ps"
  let ?pay = "tsumo_pays (isDealer x) ?dp ?ndp"
  let ?pmf = "fold (\<lambda>p. AList.update (player_id p) (- ?pay p)) ?others (zero_payments ps)"
  have pays: "(if isDealer x \<or> isDealer p then ?dp else ?ndp) = ?pay p" for p
    by (simp add: tsumo_pays_def)
  have p1: "fold (\<lambda>p pm. if player_id p = w then pm
                 else AList.update (player_id p) (- ?pay p) pm) ps (zero_payments ps) = ?pmf"
    by (rule fold_skip_winner)
  have "distinct (map player_id ?others)"
    using d by (rule distinct_map_filter)
  then have look: "lookup0 ?pmf (player_id p) = - ?pay p" if "p \<in> set ?others" for p
    using that map_of_fold_update_in [of player_id ?others p "\<lambda>p. - ?pay p" "zero_payments ps"]
    by (simp add: lookup0_def)
  have "0 \<le> ?pay p" for p
    using nonneg by (simp add: tsumo_pays_def)
  then have "\<bar>lookup0 ?pmf (player_id p)\<bar> = ?pay p" if "p \<in> set ?others" for p
    using look [OF that] by simp
  then have "map (\<lambda>p. \<bar>lookup0 ?pmf (player_id p)\<bar>) ?others = map ?pay ?others"
    by simp
  then have total: "fold (\<lambda>p sum. sum + \<bar>lookup0 ?pmf (player_id p)\<bar>) ?others 0
      = sum_list (map ?pay ?others)"
    by (simp only: fold_add)
  have "scoreModalPayments ps w loser True resp
      = Inr (AList.update w (sum_list (map ?pay ?others)) ?pmf)"
    unfolding scoreModalPayments_def Let_def using win f
    apply simp
    apply (simp only: pays)
    apply (simp only: p1 total)
    done
  then show ?thesis
    by (simp add: tsumo_result [OF f])
qed

section \<open>Self-drawn win settlement\<close>

text \<open>
  Claim C6. For every player list with pairwise distinct ids that contains the winner,
  \<open>computeTsumoPayments\<close> returns a mapping in which every non-winning player's entry
  is minus the dealer payment when the winner is the dealer, and otherwise minus the
  dealer payment for the dealer and minus the non-dealer payment for everybody else; the
  winner's entry is the sum of what the others pay; the keys are the players' ids; and
  the values sum to zero. For non-negative amounts the payment block of the score modal
  computes the same mapping.
\<close>

theorem computeTsumoPayments_rule:
  assumes "distinct (map player_id ps)" and "winner \<in> player_id ` set ps"
  shows "\<exists>pm. computeTsumoPayments ps winner dp ndp totalPoints = Inr pm \<and>
           (\<forall>p \<in> set ps. player_id p \<noteq> winner \<longrightarrow>
              map_of pm (player_id p)
                = Some (- (if winnerIsDealer ps (Some winner) then dp
                           else if isDealer p then dp else ndp))) \<and>
           map_of pm winner
             = Some (\<Sum>p\<leftarrow>filter (\<lambda>p. player_id p \<noteq> winner) ps.
                       if winnerIsDealer ps (Some winner) then dp
                       else if isDealer p then dp else ndp) \<and>
           map fst pm = map player_id ps \<and>
           sum_list (map snd pm) = 0 \<and>
           (is_winning resp \<and> dealer_payment resp = dp \<and> non_dealer_payment resp = ndp \<and>
            0 \<le> dp \<and> 0 \<le> ndp \<longrightarrow>
              scoreModalPayments ps winner loser True resp = Inr pm)"
proof -
  obtain x where f: "find (\<lambda>p. player_id p = winner) ps = Some x"
    using find_winner [OF assms(2)] by blast
  obtain pm where r: "computeTsumoPayments ps winner dp ndp totalPoints = Inr pm"
    using tsumo_result [OF f] by blast
  note facts = tsumo_facts [OF assms(1) f r]
  have wd: "winnerIsDealer ps (Some winner) = isDealer x"
    using f by (rule winnerIsDealer_find)
  have others: "\<forall>p \<in> set ps. player_id p \<noteq> winner \<longrightarrow>
      map_of pm (player_id p)
        = Some (- (if winnerIsDealer ps (Some winner) then dp
                   else if isDealer p then dp else ndp))"
    using facts(3) by (simp add: wd tsumo_pays_def)
  have own: "map_of pm winner
      = Some (\<Sum>p\<leftarrow>filter (\<lambda>p. player_id p \<noteq> winner) ps.
                if winnerIsDealer ps (Some winner) then dp
                else if isDealer p then dp else ndp)"
    using facts(2) by (simp add: wd tsumo_pays_def [abs_def])
  have "sum_list (map snd pm) = (\<Sum>p\<leftarrow>ps. the (map_of pm (player_id p)))"
    using facts(1) assms(1) by (rule sum_payment_map)
  then have zero: "sum_list (map snd pm) = 0"
    using tsumo_sum_players [OF assms(1) r] by simp
  have modal: "is_winning resp \<and> dealer_payment resp = dp \<and> non_dealer_payment resp = ndp \<and>
      0 \<le> dp \<and> 0 \<le> ndp \<longrightarrow> scoreModalPayments ps winner loser True resp = Inr pm"
    using scoreModal_tsumo [OF assms(1) f, of resp loser totalPoints] r by auto
  from r others own facts(1) zero modal show ?thesis by blast
qed

text \<open>
  At the table after \<open>initGame\<close>, seat 1 (not the dealer) wins by self-draw with a
  dealer payment of 2000 and a non-dealer payment of 1000: the dealer pays 2000, the two
  others 1000 each, the winner receives 4000.
\<close>

theorem computeTsumoPayments_rule_witness:
  "distinct (map player_id (players started)) \<and>
   ''player-1'' \<in> player_id ` set (players started) \<and>
   computeTsumoPayments (players started) ''player-1'' 2000 1000 4000
     = Inr [(''player-0'', - 2000), (''player-1'', 4000), (''player-2'', - 1000),
            (''player-3'', - 1000)] \<and>
   sum_list (map snd [(''player-0'', - 2000 :: int), (''player-1'', 4000),
                      (''player-2'', - 1000), (''player-3'', - 1000)]) = 0 \<and>
   scoreModalPayments (players started) ''player-1'' None True
       (response\<lparr>dealer_payment := 2000, non_dealer_payment := 1000\<rparr>)
     = Inr [(''player-0'', - 2000), (''player-1'', 4000), (''player-2'', - 1000),
            (''player-3'', - 1000)]"
proof -
  let ?pm = "[(''player-0'', - 2000 :: int), (''player-1'', 4000), (''player-2'', - 1000),
              (''player-3'', - 1000)]"
  let ?resp = "response\<lparr>dealer_payment := 2000, non_dealer_payment := 1000\<rparr>"
  have h1: "distinct (map player_id (players started))"
    by (simp add: store_defs table4_def started_def)
  have h2: "''player-1'' \<in> player_id ` set (players started)"
    by (simp add: store_defs table4_def started_def)
  have ev: "computeTsumoPayments (players started) ''player-1'' 2000 1000 4000 = Inr ?pm"
    by (simp add: store_defs table4_def started_def computeTsumoPayments_def tsumo_step_def)
  have r: "is_winning ?resp \<and> dealer_payment ?resp = 2000 \<and> non_dealer_payment ?resp = 1000 \<and>
      (0::int) \<le> 2000 \<and> (0::int) \<le> 1000"
    by (simp add: response_def)
  from computeTsumoPayments_rule [OF h1 h2, of 2000 1000 4000 ?resp None]
  obtain pm where pm: "computeTsumoPayments (players started) ''player-1'' 2000 1000 4000 = Inr pm"
    and zero: "sum_list (map snd pm) = 0"
    and modal: "is_winning ?resp \<and> dealer_payment ?resp = 2000 \<and>
        non_dealer_payment ?resp = 1000 \<and> (0::int) \<le> 2000 \<and> (0::int) \<le> 1000 \<longrightarrow>
        scoreModalPayments (players started) ''player-1'' None True ?resp = Inr pm"
    by blast
  have "pm = ?pm" using pm ev by simp
  with zero modal r h1 h2 ev show ?thesis by blast
qed

section \<open>Invariant of the bet pool\<close>

lemma pool_inv_apply_op:
  assumes "pool_inv s" and "apply_op c s = Inr s'"
  shows "pool_inv s'"
proof (cases c)
  case (DeclareRiichi i)
  have "length (players s) \<le> length (set_flag (playerRiichi s) i True)"
    using assms(1) length_set_flag [of "playerRiichi s" i True] by (simp add: pool_inv_def)
  with assms DeclareRiichi show ?thesis
    by (auto simp: pool_inv_def declareRiichi_def Let_def)
next
  case (UndoRiichi i)
  have "length (players s) \<le> length (set_flag (playerRiichi s) i False)"
    using assms(1) length_set_flag [of "playerRiichi s" i False] by (simp add: pool_inv_def)
  with assms UndoRiichi show ?thesis
    by (auto simp: pool_inv_def undoRiichi_def Let_def)
next
  case (RecordWin r)
  with assms show ?thesis
    by (auto simp: pool_inv_def recordWin_def Let_def split: prod.splits)
next
  case (RecordDraw t)
  with assms show ?thesis
    by (auto simp: pool_inv_def recordDraw_def Let_def split: prod.splits option.splits)
qed (use assms in \<open>auto simp: pool_inv_def initGame_def endGame_def resetGame_def Let_def\<close>)

lemma pool_inv_run: "pool_inv s \<Longrightarrow> pool_inv (run cs s)"
proof (induction cs arbitrary: s)
  case Nil
  then show ?case by simp
next
  case (Cons c cs)
  show ?case
  proof (cases "apply_op c s")
    case (Inl e)
    with Cons show ?thesis by simp
  next
    case (Inr s')
    with Cons pool_inv_apply_op [of s c s'] show ?thesis by simp
  qed
qed

lemma undo_declare:
  assumes "pool_inv s" and "i < length (players s)" and "\<not> flag_at (playerRiichi s) i"
  shows "undoRiichi i (declareRiichi i s) = s"
proof -
  have len: "i < length (playerRiichi s)"
    using assms(1,2) by (simp add: pool_inv_def)
  with assms(3) have off: "playerRiichi s ! i = False"
    by (simp add: flag_at_def)
  have flags1: "set_flag (playerRiichi s) i True = (playerRiichi s)[i := True]"
    using len by (simp add: set_flag_def)
  have on: "flag_at ((playerRiichi s)[i := True]) i"
    using len by (simp add: flag_at_def)
  have flags2: "set_flag ((playerRiichi s)[i := True]) i False = playerRiichi s"
    using len off by (simp add: set_flag_def list_update_same_conv)
  have ps: "map_index (\<lambda>j p. if j = i then p\<lparr>score := score p + 1000\<rparr> else p)
              (map_index (\<lambda>j p. if j = i then p\<lparr>score := score p - 1000\<rparr> else p) (players s))
            = players s"
    unfolding map_index_comp by (rule map_index_ident) simp
  have bets: "max 0 (riichiBets s) = riichiBets s"
    using assms(1) by (simp add: pool_inv_def)
  show ?thesis
    using assms(3) by (simp add: declareRiichi_def undoRiichi_def Let_def flags1 on flags2 ps bets)
qed

section \<open>Bets\<close>

text \<open>
  Claim C8. In every state the store can reach from its initial state by any calls, for
  every seated player index whose bet is not declared, \<open>declareRiichi\<close> followed by
  \<open>undoRiichi\<close> on that index gives back exactly the state before (score, flag and
  bet pool included). Declaring an already declared bet returns the state unchanged, and
  so does retracting a bet that is not declared.
\<close>

theorem declare_undo_roundtrip:
  "(i < length (players (run cs initialStore)) \<and>
    \<not> flag_at (playerRiichi (run cs initialStore)) i \<longrightarrow>
      undoRiichi i (declareRiichi i (run cs initialStore)) = run cs initialStore) \<and>
   (flag_at (playerRiichi s) j \<longrightarrow> declareRiichi j s = s) \<and>
   (\<not> flag_at (playerRiichi s) k \<longrightarrow> undoRiichi k s = s)"
proof -
  have "pool_inv initialStore"
    by (simp add: pool_inv_def initialStore_def)
  then have "pool_inv (run cs initialStore)"
    by (rule pool_inv_run)
  then have "i < length (players (run cs initialStore)) \<and>
      \<not> flag_at (playerRiichi (run cs initialStore)) i \<longrightarrow>
        undoRiichi i (declareRiichi i (run cs initialStore)) = run cs initialStore"
    by (simp add: undo_declare)
  moreover have "flag_at (playerRiichi s) j \<longrightarrow> declareRiichi j s = s"
    by (simp add: declareRiichi_def)
  moreover have "\<not> flag_at (playerRiichi s) k \<longrightarrow> undoRiichi k s = s"
    by (simp add: undoRiichi_def)
  ultimately show ?thesis by blast
qed

text \<open>
  At the four-player table right after \<open>initGame\<close>: seat 1 declares and retracts; in the
  state where seat 1 has declared, declaring seat 1 again and retracting seat 0 do nothing.
\<close>

theorem declare_undo_roundtrip_witness:
  "1 < length (players (run [InitGame table4 25000] initialStore)) \<and>
   \<not> flag_at (playerRiichi (run [InitGame table4 25000] initialStore)) 1 \<and>
   undoRiichi 1 (declareRiichi 1 (run [InitGame table4 25000] initialStore))
     = run [InitGame table4 25000] initialStore \<and>
   flag_at (playerRiichi (declareRiichi 1 started)) 1 \<and>
   declareRiichi 1 (declareRiichi 1 started) = declareRiichi 1 started \<and>
   \<not> flag_at (playerRiichi (declareRiichi 1 started)) 0 \<and>
   undoRiichi 0 (declareRiichi 1 started) = declareRiichi 1 started"
proof -
  have h1: "1 < length (players (run [InitGame table4 25000] initialStore)) \<and>
      \<not> flag_at (playerRiichi (run [InitGame table4 25000] initialStore)) 1"
    by (simp add: store_defs table4_def)
  have h2: "flag_at (playerRiichi (declareRiichi 1 started)) 1"
    by (simp add: store_defs table4_def started_def)
  have h3: "\<not> flag_at (playerRiichi (declareRiichi 1 started)) 0"
    by (simp add: store_defs table4_def started_def)
  from declare_undo_roundtrip [of 1 "[InitGame table4 25000]" "declareRiichi 1 started" 1 0]
    h1 h2 h3
  show ?thesis by blast
qed

section \<open>Exhaustive draw\<close>

text \<open>
  Claim C3, as the code has it. Whenever a player sits at the dealer index, as in every
  seated session, \<open>recordDraw\<close> completes for every tenpai list; the bet pool is then
  unchanged and honba is one more than before, while the bet-declared flags are not
  carried forward but all cleared, one flag per player.
\<close>

theorem recordDraw_frame:
  assumes "dealer_player s \<noteq> None"
  shows "\<exists>s'. recordDraw tenpaiIds s = Inr s' \<and>
           riichiBets s' = riichiBets s \<and> honba s' = honba s + 1 \<and>
           playerRiichi s' = replicate (length (players s)) False"
proof -
  obtain dealer where "dealer_player s = Some dealer"
    using assms by blast
  then show ?thesis
    by (simp add: recordDraw_def Let_def split: prod.splits)
qed

theorem recordDraw_frame_witness:
  "dealer_player (declareRiichi 1 started) \<noteq> None \<and>
   recordDraw [] (declareRiichi 1 started) = Inr (projr (recordDraw [] (declareRiichi 1 started))) \<and>
   riichiBets (projr (recordDraw [] (declareRiichi 1 started))) = 1 \<and>
   honba (projr (recordDraw [] (declareRiichi 1 started))) = 1 \<and>
   playerRiichi (projr (recordDraw [] (declareRiichi 1 started)))
     = [False, False, False, False]"
proof -
  have h: "dealer_player (declareRiichi 1 started) \<noteq> None"
    by (simp add: store_defs table4_def started_def)
  have b: "riichiBets (declareRiichi 1 started) = 1" "honba (declareRiichi 1 started) = 0"
    "replicate (length (players (declareRiichi 1 started))) False = [False, False, False, False]"
    by (simp_all add: store_defs table4_def started_def)
  from recordDraw_frame [OF h, of "[]"]
  obtain s' where "recordDraw [] (declareRiichi 1 started) = Inr s'"
    and "riichiBets s' = riichiBets (declareRiichi 1 started)"
    and "honba s' = honba (declareRiichi 1 started) + 1"
    and "playerRiichi s' = replicate (length (players (declareRiichi 1 started))) False"
    by blast
  with h b show ?thesis by simp
qed

text \<open>
  The claim as stated fails: seat 1 has declared a bet, the round is drawn with nobody
  tenpai, and afterwards the flag of seat 1 is cleared.
\<close>

theorem recordDraw_clears_flags:
  "playerRiichi (declareRiichi 1 started) = [False, True, False, False] \<and>
   map_sum id playerRiichi (recordDraw [] (declareRiichi 1 started))
     = Inr [False, False, False, False]"
  by (simp add: store_defs table4_def started_def)

section \<open>Rotation after a win\<close>

text \<open>
  Claim C4. Let the dealer index be \<open>d\<close> and at least one player be seated. If the winner
  holds the dealer flag, \<open>recordWin\<close> leaves dealer index, round number and round wind
  unchanged and increments honba. Otherwise honba becomes 0 and the dealer index becomes
  \<open>(d + 1) mod playerCount\<close>; when that is 0 and the wind is East, the wind becomes
  South and the round number 1; when that is 0 and the wind is not East, the phase becomes
  finished; when it is not 0, the round number becomes the new dealer index plus one.
  The rule does not depend on the phase, so it holds in the active phase in particular.
\<close>

theorem recordWin_rotation:
  assumes "dealerIndex s = Fin (int d)" and "players s \<noteq> []"
  shows "(winnerIsDealer (players s) (winnerId r) \<longrightarrow>
            dealerIndex (recordWin r s) = dealerIndex s \<and>
            currentRoundNumber (recordWin r s) = currentRoundNumber s \<and>
            currentRoundWind (recordWin r s) = currentRoundWind s \<and>
            honba (recordWin r s) = honba s + 1) \<and>
         (\<not> winnerIsDealer (players s) (winnerId r) \<longrightarrow>
            honba (recordWin r s) = 0 \<and>
            dealerIndex (recordWin r s) = Fin (int ((d + 1) mod length (players s))) \<and>
            ((d + 1) mod length (players s) = 0 \<and> currentRoundWind s = East \<longrightarrow>
               currentRoundWind (recordWin r s) = South \<and>
               currentRoundNumber (recordWin r s) = Fin 1 \<and>
               phase (recordWin r s) = Playing) \<and>
            ((d + 1) mod length (players s) = 0 \<and> currentRoundWind s \<noteq> East \<longrightarrow>
               phase (recordWin r s) = Finished) \<and>
            ((d + 1) mod length (players s) \<noteq> 0 \<longrightarrow>
               currentRoundNumber (recordWin r s)
                 = Fin (int ((d + 1) mod length (players s)) + 1) \<and>
               currentRoundWind (recordWin r s) = currentRoundWind s \<and>
               phase (recordWin r s) = Playing))"
proof -
  have "length (players s) \<noteq> 0" using assms(2) by simp
  then have nd: "num_rem (num_add (dealerIndex s) 1) (length (players s))
      = Fin (int ((d + 1) mod length (players s)))"
    unfolding assms(1) by (rule next_dealer)
  show ?thesis
    by (simp add: recordWin_def Let_def rotate_dealer_def nd split: prod.splits)
qed

text \<open>
  Both branches at the four-player table. The dealer (seat 0) wins the first round:
  honba becomes 1 and nothing rotates. After three non-dealer wins the dealer is seat 3
  in East 4; a win of seat 0 then wraps the dealer to seat 0, the wind becomes South and
  the round number 1.
\<close>

theorem recordWin_rotation_witness:
  "dealerIndex started = Fin (int 0) \<and> players started \<noteq> [] \<and>
   winnerIsDealer (players started) (winnerId dealer_tsumo) \<and>
   dealerIndex (recordWin dealer_tsumo started) = Fin 0 \<and>
   currentRoundNumber (recordWin dealer_tsumo started) = Fin 1 \<and>
   currentRoundWind (recordWin dealer_tsumo started) = East \<and>
   honba (recordWin dealer_tsumo started) = 1 \<and>
   dealerIndex east4 = Fin (int 3) \<and> players east4 \<noteq> [] \<and>
   \<not> winnerIsDealer (players east4) (winnerId (win_of ''player-0'' [])) \<and>
   (3 + 1) mod length (players east4) = 0 \<and> currentRoundWind east4 = East \<and>
   honba (recordWin (win_of ''player-0'' []) east4) = 0 \<and>
   dealerIndex (recordWin (win_of ''player-0'' []) east4) = Fin 0 \<and>
   currentRoundWind (recordWin (win_of ''player-0'' []) east4) = South \<and>
   currentRoundNumber (recordWin (win_of ''player-0'' []) east4) = Fin 1 \<and>
   phase (recordWin (win_of ''player-0'' []) east4) = Playing"
proof -
  have a1: "dealerIndex started = Fin (int 0)" and a2: "players started \<noteq> []"
    and a3: "winnerIsDealer (players started) (winnerId dealer_tsumo)"
    and a4: "currentRoundNumber started = Fin 1" "currentRoundWind started = East"
      "honba started = 0"
    by (simp_all add: store_defs table4_def started_def win_of_def dealer_tsumo_def)
  have b1: "dealerIndex east4 = Fin (int 3)" and b2: "players east4 \<noteq> []"
    and b3: "\<not> winnerIsDealer (players east4) (winnerId (win_of ''player-0'' []))"
    and b4: "(3 + 1) mod length (players east4) = 0" and b5: "currentRoundWind east4 = East"
    by (simp_all add: store_defs table4_def started_def win_of_def east4_def)
  from recordWin_rotation [OF a1 a2, of dealer_tsumo] a3 a4 a1
  have first: "dealerIndex (recordWin dealer_tsumo started) = Fin 0 \<and>
      currentRoundNumber (recordWin dealer_tsumo started) = Fin 1 \<and>
      currentRoundWind (recordWin dealer_tsumo started) = East \<and>
      honba (recordWin dealer_tsumo started) = 1"
    by simp
  from recordWin_rotation [OF b1 b2, of "win_of ''player-0'' []"] b3 b4 b5
  have second: "honba (recordWin (win_of ''player-0'' []) east4) = 0 \<and>
      dealerIndex (recordWin (win_of ''player-0'' []) east4) = Fin 0 \<and>
      currentRoundWind (recordWin (win_of ''player-0'' []) east4) = South \<and>
      currentRoundNumber (recordWin (win_of ''player-0'' []) east4) = Fin 1 \<and>
      phase (recordWin (win_of ''player-0'' []) east4) = Playing"
    by simp
  from a1 a2 a3 b1 b2 b3 b4 b5 first second show ?thesis by blast
qed

section \<open>Phase\<close>

text \<open>
  Claim C2, as the code has it. No action reads the phase. \<open>initGame\<close> sets it to playing,
  \<open>endGame\<close> to finished, \<open>resetGame\<close> to setup. \<open>declareRiichi\<close> and \<open>undoRiichi\<close>
  leave it as it is and act the same in every phase. \<open>recordWin\<close> and \<open>recordDraw\<close> give
  the same result in every phase and overwrite the phase from the rotation alone:
  finished when the dealer moves on (non-dealer win, dealer not tenpai), the next dealer
  index is 0 and the round wind is not East; playing in every other case, so also when
  the session was finished before. Only \<open>resetGame\<close> produces the setup phase.
\<close>

theorem phase_not_guarded:
  "phase (initGame ps start s) = Playing \<and> phase (endGame s) = Finished \<and>
   phase (resetGame s) = Setup \<and>
   phase (declareRiichi i s) = phase s \<and> phase (undoRiichi i s) = phase s \<and>
   declareRiichi i (s\<lparr>phase := q\<rparr>) = (declareRiichi i s)\<lparr>phase := q\<rparr> \<and>
   undoRiichi i (s\<lparr>phase := q\<rparr>) = (undoRiichi i s)\<lparr>phase := q\<rparr> \<and>
   recordWin r (s\<lparr>phase := q\<rparr>) = recordWin r s \<and>
   recordDraw t (s\<lparr>phase := q\<rparr>) = recordDraw t s \<and>
   phase (recordWin r s)
     = (if \<not> winnerIsDealer (players s) (winnerId r) \<and>
           num_rem (num_add (dealerIndex s) 1) (length (players s)) = Fin 0 \<and>
           currentRoundWind s \<noteq> East
        then Finished else Playing) \<and>
   map_sum id phase (recordDraw t s)
     = (case dealer_player s of
          None \<Rightarrow> Inl TypeError
        | Some dealer \<Rightarrow>
            Inr (if player_id dealer \<notin> set t \<and>
                    num_rem (num_add (dealerIndex s) 1) (length (players s)) = Fin 0 \<and>
                    currentRoundWind s \<noteq> East
                 then Finished else Playing))"
proof -
  have init: "phase (initGame ps start s) = Playing \<and> phase (endGame s) = Finished \<and>
      phase (resetGame s) = Setup"
    by (simp add: initGame_def endGame_def resetGame_def Let_def)
  have bets: "phase (declareRiichi i s) = phase s \<and> phase (undoRiichi i s) = phase s \<and>
      declareRiichi i (s\<lparr>phase := q\<rparr>) = (declareRiichi i s)\<lparr>phase := q\<rparr> \<and>
      undoRiichi i (s\<lparr>phase := q\<rparr>) = (undoRiichi i s)\<lparr>phase := q\<rparr>"
    by (simp add: declareRiichi_def undoRiichi_def Let_def)
  have "dealer_player (s\<lparr>phase := q\<rparr>) = dealer_player s"
    by (simp add: dealer_player_def split: jsnum.splits)
  then have same: "recordWin r (s\<lparr>phase := q\<rparr>) = recordWin r s \<and>
      recordDraw t (s\<lparr>phase := q\<rparr>) = recordDraw t s"
    by (simp add: recordWin_def recordDraw_def Let_def split: prod.splits option.splits)
  have win: "phase (recordWin r s)
      = (if \<not> winnerIsDealer (players s) (winnerId r) \<and>
            num_rem (num_add (dealerIndex s) 1) (length (players s)) = Fin 0 \<and>
            currentRoundWind s \<noteq> East
         then Finished else Playing)"
    by (simp add: recordWin_def rotate_dealer_def Let_def split: prod.splits)
  have draw: "map_sum id phase (recordDraw t s)
      = (case dealer_player s of
           None \<Rightarrow> Inl TypeError
         | Some dealer \<Rightarrow>
             Inr (if player_id dealer \<notin> set t \<and>
                     num_rem (num_add (dealerIndex s) 1) (length (players s)) = Fin 0 \<and>
                     currentRoundWind s \<noteq> East
                  then Finished else Playing))"
    by (simp add: recordDraw_def rotate_dealer_def Let_def split: prod.splits option.splits)
  from init bets same win draw show ?thesis by blast
qed

text \<open>
  The claim as stated fails: the session is ended by \<open>endGame\<close>; a dealer win recorded
  afterwards is applied and moves the phase back to playing, and a bet declared in the
  finished phase is taken from the player and added to the pool.
\<close>

theorem finished_phase_reopened:
  "phase (endGame started) = Finished \<and>
   phase (recordWin dealer_tsumo (endGame started)) = Playing \<and>
   honba (endGame started) = 0 \<and> honba (recordWin dealer_tsumo (endGame started)) = 1 \<and>
   riichiBets (endGame started) = 0 \<and> riichiBets (declareRiichi 1 (endGame started)) = 1 \<and>
   phase (declareRiichi 1 (endGame started)) = Finished"
  by (simp add: store_defs table4_def started_def win_of_def dealer_tsumo_def)

section \<open>Preconditions\<close>



section \<open>Seating is kept by every action\<close>

lemma one_index: "d < n \<Longrightarrow> length (filter (\<lambda>i. i = d) [0..<n]) = 1"
  by (induction n) (auto simp: less_Suc_eq)

lemma count_flags: "length (filter f xs) = length (filter (\<lambda>b. b) (map f xs))"
  by (simp add: filter_map comp_def)

lemma one_dealer:
  assumes "map isDealer ps = map (\<lambda>i. int i = int d) [0..<length ps]" and "d < length ps"
  shows "length (filter isDealer ps) = 1"
proof -
  have "length (filter isDealer ps)
      = length (filter (\<lambda>b. b) (map (\<lambda>i. int i = int d) [0..<length ps]))"
    using assms(1) count_flags [of isDealer ps] by simp
  also have "\<dots> = length (filter (\<lambda>i. i = d) [0..<length ps])"
    by (simp add: filter_map comp_def)
  finally show ?thesis using assms(2) by (simp add: one_index)
qed

lemma seatWindOf_mod:
  assumes "d < n" 
  shows "seatWindOf i (Fin (int d)) n = WINDS_at ((int i - int d + int n) mod int n)"
  using assms by (simp add: seatWindOf_def js_rem_def)

lemma seats_ok_reassign:
  assumes "d < length ps" and "n = length ps"
  shows "seats_ok (reassign (Fin (int d)) n ps) (Fin (int d))"
proof -
  have flags: "map isDealer (reassign (Fin (int d)) n ps) = map (\<lambda>i. int i = int d) [0..<length ps]"
    by (rule nth_equalityI) (simp_all add: reassign_def nth_map_index)
  have winds: "map seatWind (reassign (Fin (int d)) n ps)
      = map (\<lambda>i. WINDS_at ((int i - int d + int (length ps)) mod int (length ps))) [0..<length ps]"
    using assms by (intro nth_equalityI) (simp_all add: reassign_def nth_map_index seatWindOf_mod)
  have "length (filter isDealer (reassign (Fin (int d)) n ps)) = 1"
    using one_dealer [of "reassign (Fin (int d)) n ps" d] flags assms(1) by simp
  with flags winds assms(1) show ?thesis
    by (simp add: seats_ok_def)
qed

lemma seats_ok_same_seats:
  assumes "seats_ok ps di" and "map isDealer qs = map isDealer ps"
    and "map seatWind qs = map seatWind ps"
  shows "seats_ok qs di"
proof -
  have "length qs = length ps"
    using assms(2) map_eq_imp_length_eq by blast
  moreover have "length (filter isDealer qs) = length (filter isDealer ps)"
    using count_flags [of isDealer qs] count_flags [of isDealer ps] assms(2) by simp
  ultimately show ?thesis
    using assms by (simp add: seats_ok_def split: jsnum.splits)
qed

lemma seats_ok_index:
  "seats_ok ps di \<Longrightarrow> \<exists>d. di = Fin (int d) \<and> d < length ps"
proof (cases di)
  case (Fin k)
  assume "seats_ok ps di"
  with Fin have "0 \<le> k" "k < int (length ps)" by (simp_all add: seats_ok_def)
  then have "di = Fin (int (nat k)) \<and> nat k < length ps" using Fin by simp
  then show ?thesis by blast
next
  case NaN
  assume "seats_ok ps di"
  with NaN show ?thesis by (simp add: seats_ok_def)
qed

lemma rotate_index:
  assumes "d < n"
  shows "\<exists>d'. d' < n \<and> fst (rotate_dealer (Fin (int d)) rn rw n) = Fin (int d')"
proof -
  have "n \<noteq> 0" using assms by simp
  then have nd: "num_rem (num_add (Fin (int d)) 1) n = Fin (int ((d + 1) mod n))"
    by (rule next_dealer)
  have "fst (rotate_dealer (Fin (int d)) rn rw n) = Fin (int ((d + 1) mod n))"
    unfolding rotate_dealer_def Let_def nd by simp
  moreover have "(d + 1) mod n < n" using \<open>n \<noteq> 0\<close> by simp
  ultimately show ?thesis by blast
qed

lemma recordWin_players:
  "players (recordWin r s)
     = reassign (dealerIndex (recordWin r s)) (length (players s))
         (apply_payments (payments r) (players s))"
  by (simp add: recordWin_def Let_def split: prod.splits)

lemma recordWin_dealerIndex:
  "dealerIndex (recordWin r s)
     = (if winnerIsDealer (players s) (winnerId r) then dealerIndex s
        else fst (rotate_dealer (dealerIndex s) (currentRoundNumber s) (currentRoundWind s)
                    (length (players s))))"
  by (simp add: recordWin_def Let_def split: prod.splits)

lemma recordDraw_players:
  "recordDraw t s = Inr s' \<Longrightarrow>
   players s' = reassign (dealerIndex s') (length (players s))
                  (apply_payments (computeDrawPayments (players s) t) (players s))"
  by (auto simp: recordDraw_def Let_def split: prod.splits option.splits)

lemma recordDraw_dealerIndex:
  "recordDraw t s = Inr s' \<Longrightarrow>
   dealerIndex s' = dealerIndex s \<or>
   dealerIndex s' = fst (rotate_dealer (dealerIndex s) (currentRoundNumber s) (currentRoundWind s)
                           (length (players s)))"
  by (auto simp: recordDraw_def Let_def split: prod.splits option.splits if_splits)

lemma dealer_inv_moved:
  assumes inv: "dealer_inv s"
    and ps: "players s' = reassign (dealerIndex s') (length (players s)) qs"
    and len: "length qs = length (players s)"
    and di: "dealerIndex s' = dealerIndex s \<or>
             dealerIndex s' = fst (rotate_dealer (dealerIndex s) rn rw (length (players s)))"
  shows "dealer_inv s'"
proof -
  obtain d where d: "dealerIndex s = Fin (int d)" "d < length (players s)"
    using inv seats_ok_index unfolding dealer_inv_def by blast
  obtain d' where d': "d' < length (players s)" "dealerIndex s' = Fin (int d')"
    using di d rotate_index [OF d(2), of rn rw] by auto
  have "seats_ok (reassign (Fin (int d')) (length (players s)) qs) (Fin (int d'))"
    using d'(1) len by (intro seats_ok_reassign) simp_all
  then show ?thesis
    by (simp add: dealer_inv_def ps d'(2))
qed

lemma dealer_inv_initGame:
  assumes "ps \<noteq> []"
  shows "dealer_inv (initGame ps start s)"
proof -
  let ?qs = "players (initGame ps start s)"
  have len: "length ?qs = length ps" by (simp add: initGame_def Let_def)
  have flags: "map isDealer ?qs = map (\<lambda>i. int i = int 0) [0..<length ?qs]"
    by (rule nth_equalityI) (simp_all add: initGame_def Let_def nth_map_index)
  have winds: "map seatWind ?qs
      = map (\<lambda>i. WINDS_at ((int i - 0 + int (length ?qs)) mod int (length ?qs))) [0..<length ?qs]"
    by (rule nth_equalityI) (simp_all add: initGame_def Let_def nth_map_index)
  have "0 < length ?qs" using assms len by simp
  then have "length (filter isDealer ?qs) = 1"
    using one_dealer [of ?qs 0] flags by simp
  moreover have "dealerIndex (initGame ps start s) = Fin 0"
    by (simp add: initGame_def Let_def)
  ultimately show ?thesis
    using flags winds \<open>0 < length ?qs\<close> by (simp add: dealer_inv_def seats_ok_def)
qed

lemma dealer_inv_scores:
  assumes "dealer_inv s"
  shows "dealer_inv (s\<lparr>players := map_index (\<lambda>i p. if i = k then p\<lparr>score := g p\<rparr> else p) (players s),
                        playerRiichi := fl, riichiBets := b\<rparr>)"
proof -
  let ?qs = "map_index (\<lambda>i p. if i = k then p\<lparr>score := g p\<rparr> else p) (players s)"
  have "map isDealer ?qs = map isDealer (players s)"
    by (rule nth_equalityI) (simp_all add: nth_map_index)
  moreover have "map seatWind ?qs = map seatWind (players s)"
    by (rule nth_equalityI) (simp_all add: nth_map_index)
  ultimately have "seats_ok ?qs (dealerIndex s)"
    using assms seats_ok_same_seats unfolding dealer_inv_def by blast
  then show ?thesis by (simp add: dealer_inv_def)
qed

lemma dealer_inv_apply_op:
  assumes "dealer_inv s" and "keeps_seats c" and "apply_op c s = Inr s'"
  shows "dealer_inv s'"
proof (cases c)
  case (InitGame ps start)
  with assms show ?thesis by (auto simp: dealer_inv_initGame)
next
  case (DeclareRiichi i)
  with assms dealer_inv_scores [OF assms(1)] show ?thesis
    by (auto simp: declareRiichi_def Let_def)
next
  case (UndoRiichi i)
  with assms dealer_inv_scores [OF assms(1)] show ?thesis
    by (auto simp: undoRiichi_def Let_def)
next
  case (RecordWin r)
  then have s': "s' = recordWin r s" using assms(3) by simp
  show ?thesis
    unfolding s'
    by (rule dealer_inv_moved [OF assms(1) recordWin_players,
            where rn = "currentRoundNumber s" and rw = "currentRoundWind s"])
       (simp_all add: recordWin_dealerIndex)
next
  case (RecordDraw t)
  then have r: "recordDraw t s = Inr s'" using assms(3) by simp
  show ?thesis
    by (rule dealer_inv_moved [OF assms(1) recordDraw_players [OF r] _ recordDraw_dealerIndex [OF r]])
       simp
next
  case EndGame
  with assms show ?thesis by (auto simp: endGame_def dealer_inv_def)
next
  case ResetGame
  with assms show ?thesis by simp
qed

lemma dealer_inv_run:
  "dealer_inv s \<Longrightarrow> list_all keeps_seats cs \<Longrightarrow> dealer_inv (run cs s)"
proof (induction cs arbitrary: s)
  case Nil
  then show ?case by simp
next
  case (Cons c cs)
  show ?case
  proof (cases "apply_op c s")
    case (Inl e)
    with Cons show ?thesis by simp
  next
    case (Inr s')
    with Cons dealer_inv_apply_op [of s c s'] show ?thesis by simp
  qed
qed

lemma seats_ok_explicit:
  assumes "seats_ok ps di"
  shows "\<exists>d < length ps.
           di = Fin (int d) \<and> length (filter isDealer ps) = 1 \<and> isDealer (ps ! d) \<and>
           (\<forall>i < length ps.
              seatWind (ps ! i) = WINDS_at ((int i - int d + int (length ps)) mod int (length ps)))"
proof -
  obtain d where d: "di = Fin (int d)" "d < length ps"
    using assms seats_ok_index by blast
  have one: "length (filter isDealer ps) = 1"
    and flags: "map isDealer ps = map (\<lambda>i. int i = int d) [0..<length ps]"
    and winds: "map seatWind ps
      = map (\<lambda>i. WINDS_at ((int i - int d + int (length ps)) mod int (length ps)))
          [0..<length ps]"
    using assms d(1) by (simp_all add: seats_ok_def)
  have "isDealer (ps ! d)"
    using nth_map [of d ps isDealer] d(2) flags by simp
  moreover have "seatWind (ps ! i)
      = WINDS_at ((int i - int d + int (length ps)) mod int (length ps))"
    if "i < length ps" for i
    using nth_map [of i ps seatWind] that winds by simp
  ultimately show ?thesis using d one by blast
qed

section \<open>Dealer flag and seat winds\<close>

text \<open>
  Claim C9. In every seated session, that is after \<open>initGame\<close> with at least one
  player and after every further call of \<open>declareRiichi\<close>, \<open>undoRiichi\<close>,
  \<open>recordWin\<close>, \<open>recordDraw\<close>, \<open>endGame\<close> or \<open>initGame\<close> with at least one player,
  the dealer index is a seat \<open>d\<close> in \<open>[0, playerCount)\<close>, exactly one player has the
  dealer flag and it is the player at seat \<open>d\<close>, and the seat wind of every seat
  \<open>i\<close> is the entry of \<^verbatim>\<open>WINDS\<close> at offset \<open>(i - d + playerCount) mod playerCount\<close>.
\<close>

theorem dealer_seats_invariant:
  assumes "ps \<noteq> []" and "list_all keeps_seats cs" and "s = run cs (initGame ps start s0)"
  shows "\<exists>d < length (players s).
           dealerIndex s = Fin (int d) \<and>
           length (filter isDealer (players s)) = 1 \<and>
           isDealer (players s ! d) \<and>
           (\<forall>i < length (players s).
              seatWind (players s ! i)
                = WINDS_at ((int i - int d + int (length (players s)))
                             mod int (length (players s))))"
proof -
  have "dealer_inv s"
    unfolding assms(3) using assms(1,2) by (simp add: dealer_inv_initGame dealer_inv_run)
  then show ?thesis
    unfolding dealer_inv_def by (rule seats_ok_explicit)
qed

text \<open>
  At the four-player table: seat 1 declares a bet, the round is drawn with only seat 1
  tenpai (the dealer moves to seat 1), then seat 3 wins (the dealer moves to seat 2).
\<close>

theorem dealer_seats_invariant_witness:
  "table4 \<noteq> [] \<and> list_all keeps_seats mixed_calls \<and>
   dealerIndex (run mixed_calls (initGame table4 25000 initialStore)) = Fin 2 \<and>
   length (filter isDealer (players (run mixed_calls (initGame table4 25000 initialStore)))) = 1 \<and>
   map isDealer (players (run mixed_calls (initGame table4 25000 initialStore)))
     = [False, False, True, False] \<and>
   map seatWind (players (run mixed_calls (initGame table4 25000 initialStore)))
     = [Some West, Some North, Some East, Some South]"
proof -
  let ?s = "run mixed_calls (initGame table4 25000 initialStore)"
  have h1: "table4 \<noteq> []" by (simp add: table4_def)
  have h2: "list_all keeps_seats mixed_calls" by (simp add: mixed_calls_def win_of_def)
  have ev: "dealerIndex ?s = Fin 2"
    "map isDealer (players ?s) = [False, False, True, False]"
    "map seatWind (players ?s) = [Some West, Some North, Some East, Some South]"
    by (simp_all add: store_defs table4_def win_of_def mixed_calls_def)
  from dealer_seats_invariant [OF h1 h2 refl, of 25000 initialStore]
  have "length (filter isDealer (players ?s)) = 1" by blast
  with h1 h2 ev show ?thesis by blast
qed

section \<open>Settled rounds keep the score total\<close>

lemma map_map_index: "map g (map_index f xs) = map_index (\<lambda>i x. g (f i x)) xs"
  by (rule nth_equalityI) (simp_all add: nth_map_index)

lemma map_index_map: "map_index (\<lambda>i x. g x) xs = map g xs"
  by (rule nth_equalityI) (simp_all add: nth_map_index)

lemma ids_reassign [simp]: "map player_id (reassign d n ps) = map player_id ps"
  by (simp add: reassign_def map_map_index map_index_map)

lemma scores_reassign [simp]: "map score (reassign d n ps) = map score ps"
  by (simp add: reassign_def map_map_index map_index_map)

lemma ids_apply_payments [simp]: "map player_id (apply_payments pm ps) = map player_id ps"
  by (simp add: apply_payments_def)

lemma sum_apply_payments:
  "sum_list (map score (apply_payments pm ps))
     = sum_list (map score ps) + (\<Sum>p\<leftarrow>ps. lookup0 pm (player_id p))"
  by (induction ps) (simp_all add: apply_payments_def)

lemma lookup0_present:
  assumes "map fst pm = map player_id ps"
  shows "(\<Sum>p\<leftarrow>ps. lookup0 pm (player_id p)) = (\<Sum>p\<leftarrow>ps. the (map_of pm (player_id p)))"
proof -
  have "lookup0 pm (player_id p) = the (map_of pm (player_id p))" if "p \<in> set ps" for p
  proof -
    have "player_id p \<in> set (map fst pm)" using that assms by simp
    then have "player_id p \<in> fst ` set pm" by simp
    then obtain v where "map_of pm (player_id p) = Some v"
      by (cases "map_of pm (player_id p)") (auto simp: map_of_eq_None_iff)
    then show ?thesis by (simp add: lookup0_def)
  qed
  then have "map (\<lambda>p. lookup0 pm (player_id p)) ps = map (\<lambda>p. the (map_of pm (player_id p))) ps"
    by simp
  then show ?thesis by (simp only:)
qed

lemma recordWin_conserved:
  assumes "conserved ps start s" and "(\<Sum>p\<leftarrow>players s. lookup0 pm (player_id p)) = 0"
  shows "conserved ps start (recordWin (r\<lparr>payments := pm\<rparr>) s)"
proof -
  let ?s' = "recordWin (r\<lparr>payments := pm\<rparr>) s"
  have p: "players ?s' = reassign (dealerIndex ?s') (length (players s))
             (apply_payments pm (players s))"
    by (simp add: recordWin_def Let_def split: prod.splits)
  have "riichiBets ?s' = 0" "startingScore ?s' = startingScore s"
    by (simp_all add: recordWin_def Let_def split: prod.splits)
  moreover have "sum_list (map score (players ?s')) = sum_list (map score (players s))"
    unfolding p by (simp add: sum_apply_payments assms(2))
  moreover have "map player_id (players ?s') = map player_id (players s)"
    unfolding p by simp
  ultimately show ?thesis
    using assms(1) by (simp add: conserved_def)
qed

lemma recordDraw_conserved:
  assumes "conserved ps start s" and "recordDraw t s = Inr s'"
    and "(\<Sum>p\<leftarrow>players s. lookup0 (computeDrawPayments (players s) t) (player_id p)) = 0"
  shows "conserved ps start s'"
proof -
  have p: "players s' = reassign (dealerIndex s') (length (players s))
             (apply_payments (computeDrawPayments (players s) t) (players s))"
    using assms(2) by (auto simp: recordDraw_def Let_def split: prod.splits option.splits)
  have "riichiBets s' = riichiBets s" "startingScore s' = startingScore s"
    using assms(2) by (auto simp: recordDraw_def Let_def split: prod.splits option.splits)
  moreover have "sum_list (map score (players s')) = sum_list (map score (players s))"
    unfolding p by (simp add: sum_apply_payments assms(3))
  moreover have "map player_id (players s') = map player_id (players s)"
    unfolding p by simp
  ultimately show ?thesis
    using assms(1) by (simp add: conserved_def)
qed

lemma ron_sum_players:
  assumes d: "distinct (map player_id qs)" and w: "w \<in> player_id ` set qs"
    and l: "l \<in> player_id ` set qs" and lw: "l \<noteq> w"
    and r: "scoreModalPayments qs w (Some l) False resp = Inr pm"
  shows "(\<Sum>p\<leftarrow>qs. lookup0 pm (player_id p)) = 0"
proof -
  have k0: "map fst (zero_payments qs) = map player_id qs"
    using d by (rule keys_zero_payments)
  have z: "map_of (zero_payments qs) (player_id p) = Some 0" if "p \<in> set qs" for p
    using d that by (rule map_of_zero_payments)
  show ?thesis
  proof (cases "is_winning resp \<and> l \<noteq> []")
    case False
    then have "pm = zero_payments qs"
      using r by (auto simp: scoreModalPayments_def Let_def split: if_splits)
    then have "map (\<lambda>p. lookup0 pm (player_id p)) qs = map (\<lambda>p. 0) qs"
      using z by (simp add: lookup0_def)
    then have "(\<Sum>p\<leftarrow>qs. lookup0 pm (player_id p)) = sum_list (map (\<lambda>p. 0) qs)"
      by (simp only:)
    then show ?thesis by simp
  next
    case True
    let ?t = "total_points resp"
    have pm: "pm = AList.update w ?t (AList.update l (- ?t) (zero_payments qs))"
      using r True by (simp add: scoreModalPayments_def Let_def)
    have "lookup0 pm (player_id p)
        = (if player_id p = w then ?t else if player_id p = l then - ?t else 0)"
      if "p \<in> set qs" for p
      using z [OF that] by (simp add: pm lookup0_def update_conv')
    then have "map (\<lambda>p. lookup0 pm (player_id p)) qs
        = map (\<lambda>p. if player_id p = w then ?t else if player_id p = l then - ?t else 0) qs"
      by simp
    then have "(\<Sum>p\<leftarrow>qs. lookup0 pm (player_id p))
        = (\<Sum>p\<leftarrow>qs. if player_id p = w then ?t else if player_id p = l then - ?t else 0)"
      by (simp only:)
    also have "\<dots> = ?t + (\<Sum>p\<leftarrow>filter (\<lambda>p. player_id p \<noteq> w) qs.
                               if player_id p = l then - ?t else 0)"
      using d w by (rule sum_list_single_out)
    also have "(\<Sum>p\<leftarrow>filter (\<lambda>p. player_id p \<noteq> w) qs. if player_id p = l then - ?t else 0)
        = - ?t + (\<Sum>p\<leftarrow>filter (\<lambda>p. player_id p \<noteq> l) (filter (\<lambda>p. player_id p \<noteq> w) qs). 0)"
    proof (rule sum_list_single_out)
      show "distinct (map player_id (filter (\<lambda>p. player_id p \<noteq> w) qs))"
        using d by (rule distinct_map_filter)
      show "l \<in> player_id ` set (filter (\<lambda>p. player_id p \<noteq> w) qs)"
        using l lw by auto
    qed
    finally show ?thesis by simp
  qed
qed

lemma settle_conserved:
  assumes n: "length ps = 3 \<or> length ps = 4" and d: "distinct (map player_id ps)"
    and c: "conserved ps start s" and st: "settle x s = Some s'"
  shows "conserved ps start s'"
proof -
  have ids: "map player_id (players s) = map player_id ps"
    using c by (simp add: conserved_def)
  have dq: "distinct (map player_id (players s))" using d ids by simp
  have nq: "length (players s) = 3 \<or> length (players s) = 4"
    using n ids map_eq_imp_length_eq by metis
  show ?thesis
  proof (cases x)
    case (TsumoWin r dp ndp tot)
    then obtain w where w: "winnerId r = Some w"
      using st by (auto split: option.splits)
    show ?thesis
    proof (cases "computeTsumoPayments (players s) w dp ndp tot")
      case (Inl e)
      with TsumoWin w st c show ?thesis by simp
    next
      case (Inr pm)
      with TsumoWin w st have s': "s' = recordWin (r\<lparr>payments := pm\<rparr>) s" by simp
      have "(\<Sum>p\<leftarrow>players s. lookup0 pm (player_id p)) = 0"
        using tsumo_sum_players [OF dq Inr] lookup0_present [of pm "players s"] by auto
      then show ?thesis unfolding s' by (rule recordWin_conserved [OF c])
    qed
  next
    case (RonWin r resp)
    then obtain w l where wl: "w \<in> player_id ` set (players s)"
        "l \<in> player_id ` set (players s)" "l \<noteq> w"
      and facts: "winnerId r = Some w" "loserId r = Some l"
      using st by (auto split: option.splits if_splits)
    show ?thesis
    proof (cases "scoreModalPayments (players s) w (Some l) False resp")
      case (Inl e)
      with RonWin wl facts st c show ?thesis by simp
    next
      case (Inr pm)
      with RonWin wl facts st have s': "s' = recordWin (r\<lparr>payments := pm\<rparr>) s" by simp
      have "(\<Sum>p\<leftarrow>players s. lookup0 pm (player_id p)) = 0"
        using dq wl Inr by (rule ron_sum_players)
      then show ?thesis unfolding s' by (rule recordWin_conserved [OF c])
    qed
  next
    case (ExhaustiveDraw t)
    then have t: "distinct t" "set t \<subseteq> player_id ` set (players s)"
      using st by (auto split: if_splits)
    show ?thesis
    proof (cases "recordDraw t s")
      case (Inl e)
      with ExhaustiveDraw t st c show ?thesis by simp
    next
      case (Inr s1)
      with ExhaustiveDraw t st have s': "s' = s1" by simp
      have k: "map fst (computeDrawPayments (players s) t) = map player_id (players s)"
        using dq t(2) by (rule keys_draw)
      have "(\<Sum>p\<leftarrow>players s. lookup0 (computeDrawPayments (players s) t) (player_id p)) = 0"
        unfolding lookup0_present [OF k] by (rule draw_sum_players [OF nq dq t])
      with c Inr show ?thesis unfolding s' by (rule recordDraw_conserved)
    qed
  qed
qed

lemma play_conserved:
  assumes "length ps = 3 \<or> length ps = 4" and "distinct (map player_id ps)"
  shows "conserved ps start s \<Longrightarrow> play cs s = Some s' \<Longrightarrow> conserved ps start s'"
proof (induction cs arbitrary: s)
  case Nil
  then show ?case by simp
next
  case (Cons x cs)
  then obtain s1 where s1: "settle x s = Some s1" "play cs s1 = Some s'"
    by (auto split: option.splits)
  have "conserved ps start s1"
    using assms Cons.prems(1) s1(1) by (rule settle_conserved)
  then show ?case using s1(2) by (rule Cons.IH)
qed

lemma initGame_conserved: "conserved ps start (initGame ps start s0)"
proof -
  have "map score (players (initGame ps start s0)) = replicate (length ps) start"
    by (rule nth_equalityI) (simp_all add: initGame_def Let_def nth_map_index)
  moreover have "map player_id (players (initGame ps start s0)) = map player_id ps"
    by (rule nth_equalityI) (simp_all add: initGame_def Let_def nth_map_index)
  ultimately show ?thesis
    by (simp add: conserved_def initGame_def Let_def sum_list_replicate)
qed

section \<open>Score total\<close>

text \<open>
  With no bet on the table the total is kept: in a session started by \<open>initGame\<close> with
  3 or 4 players of distinct ids, after every sequence of settled rounds the scores add
  up to the player count times the starting score, and the pool is empty.
\<close>

lemma settled_rounds_conserve:
  assumes "length ps = 3 \<or> length ps = 4" and "distinct (map player_id ps)"
    and "play cs (initGame ps start s0) = Some s"
  shows "sum_list (map score (players s)) = int (length (players s)) * startingScore s \<and>
         riichiBets s = 0 \<and> length (players s) = length ps \<and> startingScore s = start"
proof -
  have c: "conserved ps start s"
    using assms(1,2) initGame_conserved assms(3) by (rule play_conserved)
  then have "length (players s) = length ps"
    using map_eq_imp_length_eq unfolding conserved_def by blast
  with c show ?thesis by (simp add: conserved_def)
qed

text \<open>
  Three settled rounds at the four-player table starting at 25000: the scores end at
  28200, 26000, 28000 and 17800, which add up to 100000.
\<close>

lemma settled_rounds_conserve_example:
  "play three_rounds (initGame table4 25000 initialStore)
     = Some (the (play three_rounds (initGame table4 25000 initialStore))) \<and>
   map score (players (the (play three_rounds (initGame table4 25000 initialStore))))
     = [28200, 26000, 28000, 17800] \<and>
   riichiBets (the (play three_rounds (initGame table4 25000 initialStore))) = 0"
  by (simp add: store_defs table4_def win_of_def ron_facts_def response_def three_rounds_def
        computeTsumoPayments_def tsumo_step_def scoreModalPayments_def)

text \<open>
  What \<open>recordWin\<close> does to the total in general: the scores change by the payments
  applied to the seated players and the pool is set to zero, so with a zero-sum mapping
  the total drops by exactly 1000 times the pool that was on the table.
\<close>

lemma recordWin_total:
  "sum_list (map score (players (recordWin r s))) + 1000 * riichiBets (recordWin r s)
     = sum_list (map score (players s)) + (\<Sum>p\<leftarrow>players s. lookup0 (payments r) (player_id p))"
proof -
  have "riichiBets (recordWin r s) = 0"
    by (simp add: recordWin_def Let_def split: prod.splits)
  then show ?thesis
    by (simp add: recordWin_players sum_apply_payments)
qed

lemma recordWin_drops_pool:
  assumes "(\<Sum>p\<leftarrow>players s. lookup0 (payments r) (player_id p)) = 0"
  shows "sum_list (map score (players (recordWin r s))) + 1000 * riichiBets (recordWin r s)
     = sum_list (map score (players s)) + 1000 * riichiBets s - 1000 * riichiBets s"
  using assms by (simp add: recordWin_total)

text \<open>Declaring a bet moves 1000 from the player to the pool and leaves the total as it is.\<close>

lemma sum_list_update_int:
  "i < length xs \<Longrightarrow> sum_list (xs[i := v]) = sum_list xs + v - (xs ! i :: int)"
  by (induction xs arbitrary: i) (auto split: nat.splits)

lemma declareRiichi_total:
  assumes "i < length (players s)"
  shows "sum_list (map score (players (declareRiichi i s))) + 1000 * riichiBets (declareRiichi i s)
     = sum_list (map score (players s)) + 1000 * riichiBets s"
proof (cases "flag_at (playerRiichi s) i")
  case True
  then show ?thesis by (simp add: declareRiichi_def)
next
  case False
  have "map score (map_index (\<lambda>j p. if j = i then p\<lparr>score := score p - 1000\<rparr> else p) (players s))
      = (map score (players s))[i := score (players s ! i) - 1000]"
    by (rule nth_equalityI) (auto simp: nth_map_index nth_list_update)
  moreover have "sum_list ((map score (players s))[i := score (players s ! i) - 1000])
      = sum_list (map score (players s)) - 1000"
    using assms by (simp add: sum_list_update_int)
  ultimately show ?thesis
    using False by (simp add: declareRiichi_def Let_def)
qed

text \<open>
  Claim C1 says that the sum of all scores plus 1000 times the bet pool equals the player
  count times the starting score after every call of \<open>recordWin\<close> and \<open>recordDraw\<close>.
  The code does not keep this once a bet is on the table. At the four-player table
  started at 25000, seat 1 declares a bet: the scores add up to 99000 and the pool holds
  one bet, 100000 in all. The dealer then wins by self-draw with a dealer payment of 2000;
  \<open>computeTsumoPayments\<close> yields a zero-sum mapping, \<open>recordWin\<close> applies it and
  empties the pool without crediting the bet to anyone: the scores are 31000, 22000,
  23000 and 23000 with an empty pool, 99000 in all.
\<close>

theorem bet_lost_on_win:
  "sum_list (map score (players (declareRiichi 1 started)))
     + 1000 * riichiBets (declareRiichi 1 started) = 4 * 25000 \<and>
   computeTsumoPayments (players (declareRiichi 1 started)) ''player-0'' 2000 1000 6000
     = Inr (payments dealer_tsumo) \<and>
   map score (players (recordWin dealer_tsumo (declareRiichi 1 started)))
     = [31000, 22000, 23000, 23000] \<and>
   riichiBets (recordWin dealer_tsumo (declareRiichi 1 started)) = 0 \<and>
   sum_list (map score (players (recordWin dealer_tsumo (declareRiichi 1 started))))
     + 1000 * riichiBets (recordWin dealer_tsumo (declareRiichi 1 started)) = 99000 \<and>
   int (length (players (recordWin dealer_tsumo (declareRiichi 1 started))))
     * startingScore (recordWin dealer_tsumo (declareRiichi 1 started)) = 100000"
  by (simp add: store_defs table4_def started_def win_of_def dealer_tsumo_def
        computeTsumoPayments_def tsumo_step_def)

end
